theory Spec2Isabelle
  imports Main "HOL-Library.AList" "HOL-Library.Multiset" "HOL-Library.Char_ord"
    "HOL-Library.List_Lexorder"
begin

section \<open>Data model of warmRestartHelper.cpp\<close>

text \<open>
  Modelled from the spec: the record types and their accessors, which are declared outside
  this file. A record is a key, an operation tag and an ordered sequence of (field, value)
  pairs: a \<open>FieldValueTuple\<close> is a pair of strings, a \<open>KeyOpFieldsValuesTuple\<close> the tuple
  (key, operation, field-values), and the accessors are the macros the source uses.
\<close>

type_synonym FieldValueTuple = "string \<times> string"

type_synonym KeyOpFieldsValuesTuple = "string \<times> string \<times> FieldValueTuple list"

definition fvField :: "FieldValueTuple \<Rightarrow> string" where
  "fvField fv = fst fv"

definition fvValue :: "FieldValueTuple \<Rightarrow> string" where
  "fvValue fv = snd fv"

definition kfvKey :: "KeyOpFieldsValuesTuple \<Rightarrow> string" where
  "kfvKey kfv = fst kfv"

definition kfvOp :: "KeyOpFieldsValuesTuple \<Rightarrow> string" where
  "kfvOp kfv = fst (snd kfv)"

definition kfvFieldsValues :: "KeyOpFieldsValuesTuple \<Rightarrow> FieldValueTuple list" where
  "kfvFieldsValues kfv = snd (snd kfv)"

text \<open>
  Modelled from the spec: the operation tags. The macros \<open>SET_COMMAND\<close> and
  \<open>DEL_COMMAND\<close> are declared outside this file; the spec names the two operations
  SET and DELETE. The source only ever tests a tag for equality with \<open>DEL_COMMAND\<close>.
\<close>

definition SET_COMMAND :: string where
  "SET_COMMAND = ''SET''"

definition DEL_COMMAND :: string where
  "DEL_COMMAND = ''DEL''"

text \<open>
  Modelled from the spec: the states of the warm-restart cycle, an enumeration declared
  outside this file.
\<close>

datatype WarmStartState = INITIALIZED | RESTORED | RECONCILED

text \<open>
  The synchronized table (a \<open>ProducerStateTable\<close>) is an external sink. It is modelled by
  the sequence of calls made on it.
\<close>

datatype SyncCall =
  SyncSet string "FieldValueTuple list"
  | SyncDel string
  | SyncClear

text \<open>The two assertions of the source; a failed assertion aborts the process.\<close>

datatype fault = StateAssertion | FieldAssertion

text \<open>
  The helper object, with the members that the functions of the source read and write
  (the class declaration is outside this file). \<open>m_restorationVector\<close> is a vector of
  records. \<open>m_refreshMap\<close> maps a key to a record and is handled through lookup,
  assignment and erasure by key: an association list. The order in which the source
  iterates over it is not specified; the model takes the order of the list, and the
  statements about that iteration speak of its calls as a multiset or a set.
  \<open>m_syncTable\<close> is the log of the calls on the sink; \<open>stateStore\<close> is the log of the
  \<open>WarmStart::setWarmStartState\<close> writes to the status store.
\<close>

record WarmStartHelper =
  m_appName :: string
  m_enabled :: bool
  m_state :: WarmStartState
  m_restorationVector :: "KeyOpFieldsValuesTuple list"
  m_refreshMap :: "(string \<times> KeyOpFieldsValuesTuple) list"
  m_syncTable :: "SyncCall list"
  stateStore :: "(string \<times> WarmStartState) list"

text \<open>A call either returns, or aborts on an assertion in the state reached so far.\<close>

type_synonym 'a outcome = "(fault \<times> WarmStartHelper) + 'a"


section \<open>The field-value comparator\<close>

text \<open>
  Modelled from the spec: \<open>tokenize\<close> is a library function declared outside this file.
  The spec says a value is treated as a comma-separated list of tokens: the string is cut
  at every occurrence of the delimiter, so a string with n delimiters has n + 1 tokens.
\<close>

fun tokenize :: "string \<Rightarrow> char \<Rightarrow> string list" where
  "tokenize [] token = [[]]"
| "tokenize (c # cs) token =
     (if c = token then [] # tokenize cs token
      else (case tokenize cs token of
              [] \<Rightarrow> [[c]]
            | t # ts \<Rightarrow> (c # t) # ts))"

text \<open>The index loop at the end of \<open>compareOneFV\<close>, over the two sorted vectors.\<close>

function compareSorted :: "nat \<Rightarrow> string list \<Rightarrow> string list \<Rightarrow> bool" where
  "compareSorted i xs ys =
     (if i < length xs
      then (if xs ! i \<noteq> ys ! i then True else compareSorted (Suc i) xs ys)
      else False)"
  by pat_completeness auto
termination
  by (relation "measure (\<lambda>(i, xs, ys). length xs - i)") auto

declare compareSorted.simps [simp del]

text \<open>
  \<open>True\<close> means that no full match is found, \<open>False\<close> that the contents match.
  \<open>std::sort\<close> on strings is \<open>sort\<close> in the lexicographic order of the characters.
\<close>

definition compareOneFV :: "string \<Rightarrow> string \<Rightarrow> bool" where
  "compareOneFV s1 s2 =
     (if length s1 \<noteq> length s2 then True
      else
        let splitValuesS1 = tokenize s1 CHR '','';
            splitValuesS2 = tokenize s2 CHR '',''
        in if length splitValuesS1 \<noteq> length splitValuesS2 then True
           else compareSorted 0 (sort splitValuesS1) (sort splitValuesS2))"

text \<open>
  \<open>compareAllFV\<close> builds a map from \<open>v1\<close> and walks through \<open>v2\<close>. A field of \<open>v2\<close> that
  the map lacks fails the assertion. Field names are unique within a record; for a field
  that \<open>v1\<close> repeats the model keeps the first pair. \<open>True\<close> means that no full match is
  found, \<open>False\<close> that fields and values match.
\<close>

fun compareAllFV :: "FieldValueTuple list \<Rightarrow> FieldValueTuple list \<Rightarrow> fault + bool" where
  "compareAllFV v1 [] = Inr False"
| "compareAllFV v1 (v2fv # v2) =
     (case map_of v1 (fvField v2fv) of
        None \<Rightarrow> Inl FieldAssertion
      | Some v1Value \<Rightarrow>
          if compareOneFV v1Value (fvValue v2fv) then Inr True
          else compareAllFV v1 v2)"


section \<open>The state machine\<close>

definition setState :: "WarmStartState \<Rightarrow> WarmStartHelper \<Rightarrow> WarmStartHelper" where
  "setState state h =
     h\<lparr>stateStore := stateStore h @ [(m_appName h, state)], m_state := state\<rparr>"

definition getState :: "WarmStartHelper \<Rightarrow> WarmStartState" where
  "getState h = m_state h"

definition syncTable_set ::
  "string \<Rightarrow> FieldValueTuple list \<Rightarrow> WarmStartHelper \<Rightarrow> WarmStartHelper" where
  "syncTable_set key fv h = h\<lparr>m_syncTable := m_syncTable h @ [SyncSet key fv]\<rparr>"

definition syncTable_del :: "string \<Rightarrow> WarmStartHelper \<Rightarrow> WarmStartHelper" where
  "syncTable_del key h = h\<lparr>m_syncTable := m_syncTable h @ [SyncDel key]\<rparr>"

definition syncTable_clear :: "WarmStartHelper \<Rightarrow> WarmStartHelper" where
  "syncTable_clear h = h\<lparr>m_syncTable := m_syncTable h @ [SyncClear]\<rparr>"

text \<open>
  \<open>isEnabled\<close> reads the warm-restart configuration through \<open>WarmStart::checkWarmStart\<close>,
  an external lookup: its answer is the first argument.
\<close>

definition isEnabled :: "bool \<Rightarrow> WarmStartHelper \<Rightarrow> bool \<times> WarmStartHelper" where
  "isEnabled enabled h =
     (let h1 = (if enabled then syncTable_clear (setState INITIALIZED h) else h)
      in (enabled, h1\<lparr>m_enabled := enabled\<rparr>))"

definition isReconciled :: "WarmStartHelper \<Rightarrow> bool" where
  "isReconciled h = (m_state h = RECONCILED)"

definition inProgress :: "WarmStartHelper \<Rightarrow> bool" where
  "inProgress h = (m_enabled h \<and> m_state h \<noteq> RECONCILED)"

text \<open>
  \<open>runRestoration\<close> reads the restoration table through \<open>getContent\<close>, an external read
  that stores the records of the table in \<open>m_restorationVector\<close>: the records it
  delivers are the first argument.
\<close>

definition runRestoration ::
  "KeyOpFieldsValuesTuple list \<Rightarrow> WarmStartHelper \<Rightarrow> bool \<times> WarmStartHelper" where
  "runRestoration content h =
     (let h1 = h\<lparr>m_restorationVector := content\<rparr>
      in if length (m_restorationVector h1) = 0
         then (False, setState RECONCILED h1)
         else (True, setState RESTORED h1))"

definition insertRefreshMap :: "KeyOpFieldsValuesTuple \<Rightarrow> WarmStartHelper \<Rightarrow> WarmStartHelper" where
  "insertRefreshMap kfv h =
     (let key = kfvKey kfv
      in h\<lparr>m_refreshMap := AList.update key kfv (m_refreshMap h)\<rparr>)"


section \<open>Reconciliation\<close>

text \<open>The first loop of \<open>reconcile\<close>, over the restoration vector.\<close>

fun reconcileRestored ::
  "KeyOpFieldsValuesTuple list \<Rightarrow> WarmStartHelper \<Rightarrow> WarmStartHelper outcome" where
  "reconcileRestored [] h = Inr h"
| "reconcileRestored (restoredElem # rest) h =
     (let restoredKey = kfvKey restoredElem;
          restoredFV = kfvFieldsValues restoredElem
      in case map_of (m_refreshMap h) restoredKey of
           None \<Rightarrow> reconcileRestored rest (syncTable_del restoredKey h)
         | Some refreshed \<Rightarrow>
             if kfvOp refreshed = DEL_COMMAND
             then reconcileRestored rest
                    ((syncTable_del restoredKey h)
                       \<lparr>m_refreshMap := AList.delete restoredKey (m_refreshMap h)\<rparr>)
             else
               let refreshedKey = kfvKey refreshed;
                   refreshedFV = kfvFieldsValues refreshed
               in (case compareAllFV restoredFV refreshedFV of
                     Inl f \<Rightarrow> Inl (f, h)
                   | Inr changed \<Rightarrow>
                       if changed
                       then reconcileRestored rest
                              ((syncTable_set refreshedKey refreshedFV h)
                                 \<lparr>m_refreshMap := AList.delete restoredKey (m_refreshMap h)\<rparr>)
                       else reconcileRestored rest
                              (h\<lparr>m_refreshMap := AList.delete restoredKey (m_refreshMap h)\<rparr>)))"

text \<open>The second loop, over what is left of the refresh map.\<close>

fun reconcileRefreshed ::
  "(string \<times> KeyOpFieldsValuesTuple) list \<Rightarrow> WarmStartHelper \<Rightarrow> WarmStartHelper" where
  "reconcileRefreshed [] h = h"
| "reconcileRefreshed (kfv # rest) h =
     (let refreshedKey = kfvKey (snd kfv);
          refreshedFV = kfvFieldsValues (snd kfv)
      in reconcileRefreshed rest (syncTable_set refreshedKey refreshedFV h))"

definition reconcile :: "WarmStartHelper \<Rightarrow> WarmStartHelper outcome" where
  "reconcile h =
     (if getState h \<noteq> RESTORED then Inl (StateAssertion, h)
      else case reconcileRestored (m_restorationVector h) h of
             Inl e \<Rightarrow> Inl e
           | Inr h1 \<Rightarrow>
               let h2 = reconcileRefreshed (m_refreshMap h1) h1;
                   h3 = h2\<lparr>m_refreshMap := []\<rparr>;
                   h4 = h3\<lparr>m_restorationVector := []\<rparr>
               in Inr (setState RECONCILED h4))"

text \<open>
  The calls an application makes on the helper after \<open>isEnabled\<close>, and a run of a
  sequence of them. A failed assertion ends the run.
\<close>

datatype call =
  SetState WarmStartState
  | RunRestoration "KeyOpFieldsValuesTuple list"
  | InsertRefreshMap KeyOpFieldsValuesTuple
  | Reconcile

fun exec :: "call \<Rightarrow> WarmStartHelper \<Rightarrow> WarmStartHelper outcome" where
  "exec (SetState s) h = Inr (setState s h)"
| "exec (RunRestoration content) h = Inr (snd (runRestoration content h))"
| "exec (InsertRefreshMap kfv) h = Inr (insertRefreshMap kfv h)"
| "exec Reconcile h = reconcile h"

fun run :: "call list \<Rightarrow> WarmStartHelper \<Rightarrow> WarmStartHelper outcome" where
  "run [] h = Inr h"
| "run (c # cs) h = (case exec c h of Inl e \<Rightarrow> Inl e | Inr h1 \<Rightarrow> run cs h1)"

text \<open>The calls that one run of \<open>reconcile\<close> adds to the sink, whether it returns or aborts.\<close>

definition reconcileCalls :: "WarmStartHelper \<Rightarrow> SyncCall list" where
  "reconcileCalls h =
     (case reconcile h of
        Inl (f, h1) \<Rightarrow> drop (length (m_syncTable h)) (m_syncTable h1)
      | Inr h1 \<Rightarrow> drop (length (m_syncTable h)) (m_syncTable h1))"


section \<open>The reconciliation algorithm as the specification words it\<close>

text \<open>
  The specification describes the pass over the snapshot record by record, against a
  refresh map seen as a partial function: a record whose key the map lacks is deleted, so
  is one that the map holds with operation DELETE; one that the map holds with another
  operation is set to the refreshed record when the comparator reports a difference, and
  is left alone otherwise. The key is then taken out of the map.
\<close>

definition specRecordCalls ::
  "(string \<rightharpoonup> KeyOpFieldsValuesTuple) \<Rightarrow> KeyOpFieldsValuesTuple \<Rightarrow> SyncCall list" where
  "specRecordCalls refresh R =
     (case refresh (kfvKey R) of
        None \<Rightarrow> [SyncDel (kfvKey R)]
      | Some r \<Rightarrow>
          if kfvOp r = DEL_COMMAND then [SyncDel (kfvKey R)]
          else if compareAllFV (kfvFieldsValues R) (kfvFieldsValues r) = Inr True
               then [SyncSet (kfvKey r) (kfvFieldsValues r)]
               else [])"

fun specSnapshotPass ::
  "(string \<rightharpoonup> KeyOpFieldsValuesTuple) \<Rightarrow> KeyOpFieldsValuesTuple list \<Rightarrow> SyncCall list" where
  "specSnapshotPass refresh [] = []"
| "specSnapshotPass refresh (R # snapshot) =
     specRecordCalls refresh R @ specSnapshotPass (refresh(kfvKey R := None)) snapshot"

text \<open>
  The pass stops at the first record whose comparison fails the field assertion of
  \<open>compareAllFV\<close>: \<open>specProcessed\<close> gives the records before that one, and the whole
  snapshot when no comparison fails.
\<close>

definition specRecordFaults ::
  "(string \<rightharpoonup> KeyOpFieldsValuesTuple) \<Rightarrow> KeyOpFieldsValuesTuple \<Rightarrow> bool" where
  "specRecordFaults refresh R =
     (case refresh (kfvKey R) of
        None \<Rightarrow> False
      | Some r \<Rightarrow>
          kfvOp r \<noteq> DEL_COMMAND
          \<and> compareAllFV (kfvFieldsValues R) (kfvFieldsValues r) = Inl FieldAssertion)"

fun specProcessed ::
  "(string \<rightharpoonup> KeyOpFieldsValuesTuple) \<Rightarrow> KeyOpFieldsValuesTuple list
    \<Rightarrow> KeyOpFieldsValuesTuple list" where
  "specProcessed refresh [] = []"
| "specProcessed refresh (R # snapshot) =
     (if specRecordFaults refresh R then []
      else R # specProcessed (refresh(kfvKey R := None)) snapshot)"

text \<open>The set call that the second pass makes for an entry of the refresh map.\<close>

definition setCall :: "string \<times> KeyOpFieldsValuesTuple \<Rightarrow> SyncCall" where
  "setCall e = SyncSet (kfvKey (snd e)) (kfvFieldsValues (snd e))"

text \<open>
  No snapshot record fails the field assertion of \<open>compareAllFV\<close> against the record that
  the refresh map holds for its key. This is enough for the pass to get through.
\<close>

definition noFieldFault ::
  "KeyOpFieldsValuesTuple list \<Rightarrow> (string \<times> KeyOpFieldsValuesTuple) list \<Rightarrow> bool" where
  "noFieldFault snapshot refresh =
     (\<forall>R \<in> set snapshot.
        case map_of refresh (kfvKey R) of
          None \<Rightarrow> True
        | Some r \<Rightarrow>
            kfvOp r = DEL_COMMAND
            \<or> compareAllFV (kfvFieldsValues R) (kfvFieldsValues r) \<noteq> Inl FieldAssertion)"

text \<open>
  Record-level comparison as the specification words it: the record is changed when a
  field has values that do not pass the per-field check, or when a field is in one of the
  two records only.
\<close>

definition specRecordChanged :: "FieldValueTuple list \<Rightarrow> FieldValueTuple list \<Rightarrow> bool" where
  "specRecordChanged restoredFV refreshedFV =
     ((\<exists>fv1 \<in> set restoredFV. \<exists>fv2 \<in> set refreshedFV.
         fvField fv1 = fvField fv2 \<and> compareOneFV (fvValue fv1) (fvValue fv2))
      \<or> (\<exists>fv1 \<in> set restoredFV. fvField fv1 \<notin> fvField ` set refreshedFV)
      \<or> (\<exists>fv2 \<in> set refreshedFV. fvField fv2 \<notin> fvField ` set restoredFV))"

text \<open>
  The edit script as the specification words it: one decision for a key, from the
  snapshot and the refresh map alone. A key that the refresh map holds with operation
  DELETE is deleted, and so is a key of the snapshot that the refresh map lacks; a key that
  the refresh map holds with another operation is set when it is new or changed; nothing
  is done otherwise.
\<close>

datatype decision = DELETE | SET "FieldValueTuple list" | NOOP

definition specDecision ::
  "KeyOpFieldsValuesTuple list \<Rightarrow> (string \<rightharpoonup> KeyOpFieldsValuesTuple) \<Rightarrow> string \<Rightarrow> decision"
  where
  "specDecision snapshot refresh K =
     (case refresh K of
        None \<Rightarrow>
          (case find (\<lambda>R. kfvKey R = K) snapshot of
             None \<Rightarrow> NOOP
           | Some R \<Rightarrow> DELETE)
      | Some r \<Rightarrow>
          if kfvOp r = DEL_COMMAND then DELETE
          else
            (case find (\<lambda>R. kfvKey R = K) snapshot of
               None \<Rightarrow> SET (kfvFieldsValues r)
             | Some R \<Rightarrow>
                 if specRecordChanged (kfvFieldsValues R) (kfvFieldsValues r)
                 then SET (kfvFieldsValues r)
                 else NOOP))"

fun callKey :: "SyncCall \<Rightarrow> string option" where
  "callKey (SyncSet key fv) = Some key"
| "callKey (SyncDel key) = Some key"
| "callKey SyncClear = None"

text \<open>
  The refresh map is keyed by the key of the record it holds, one entry for a key, as
  \<open>insertRefreshMap\<close> builds it.
\<close>

definition refreshMapOk :: "(string \<times> KeyOpFieldsValuesTuple) list \<Rightarrow> bool" where
  "refreshMapOk refresh =
     (distinct (map fst refresh) \<and> (\<forall>e \<in> set refresh. kfvKey (snd e) = fst e))"

text \<open>
  The snapshot is the content of a table: one record for a key, and in a record one value
  for a field.
\<close>

definition snapshotOk :: "KeyOpFieldsValuesTuple list \<Rightarrow> bool" where
  "snapshotOk snapshot =
     (distinct (map kfvKey snapshot)
      \<and> (\<forall>R \<in> set snapshot. distinct (map fvField (kfvFieldsValues R))))"

text \<open>
  The refreshed record is a proper part of the restored one: the restored record has a
  field that the refreshed record lacks, and every field of the refreshed record is in the
  restored record with a value that passes the per-field check.
\<close>

definition properPart :: "FieldValueTuple list \<Rightarrow> FieldValueTuple list \<Rightarrow> bool" where
  "properPart restoredFV refreshedFV =
     ((\<exists>fv1 \<in> set restoredFV. fvField fv1 \<notin> fvField ` set refreshedFV)
      \<and> (\<forall>fv2 \<in> set refreshedFV.
            case map_of restoredFV (fvField fv2) of
              None \<Rightarrow> False
            | Some v \<Rightarrow> \<not> compareOneFV v (fvValue fv2)))"

text \<open>No refreshed record is a proper part of the snapshot record that it refreshes.\<close>

definition noProperPart ::
  "KeyOpFieldsValuesTuple list \<Rightarrow> (string \<times> KeyOpFieldsValuesTuple) list \<Rightarrow> bool" where
  "noProperPart snapshot refresh =
     (\<forall>R \<in> set snapshot.
        case map_of refresh (kfvKey R) of
          None \<Rightarrow> True
        | Some r \<Rightarrow>
            kfvOp r = DEL_COMMAND
            \<or> \<not> properPart (kfvFieldsValues R) (kfvFieldsValues r))"

text \<open>Every refreshed record with operation DELETE has its key in the snapshot.\<close>

definition deletesRestored ::
  "KeyOpFieldsValuesTuple list \<Rightarrow> (string \<times> KeyOpFieldsValuesTuple) list \<Rightarrow> bool" where
  "deletesRestored snapshot refresh =
     (\<forall>e \<in> set refresh. kfvOp (snd e) = DEL_COMMAND \<longrightarrow> fst e \<in> kfvKey ` set snapshot)"


text \<open>
  The refresh map repeats the snapshot: the snapshot holds one record for a key, as the
  content of a table does, the refresh map holds the keys of the snapshot and no other,
  and the record it holds for a key is not a DELETE and compares equal to the record of
  the snapshot.
\<close>

definition sameAsSnapshot ::
  "KeyOpFieldsValuesTuple list \<Rightarrow> (string \<times> KeyOpFieldsValuesTuple) list \<Rightarrow> bool" where
  "sameAsSnapshot snapshot refresh =
     (distinct (map kfvKey snapshot)
      \<and> fst ` set refresh = kfvKey ` set snapshot
      \<and> (\<forall>R \<in> set snapshot.
            case map_of refresh (kfvKey R) of
              None \<Rightarrow> False
            | Some r \<Rightarrow>
                kfvOp r \<noteq> DEL_COMMAND
                \<and> compareAllFV (kfvFieldsValues R) (kfvFieldsValues r) = Inr False))"


text \<open>The call that carries out a decision for a key.\<close>

fun decisionCall :: "string \<Rightarrow> decision \<Rightarrow> SyncCall list" where
  "decisionCall K DELETE = [SyncDel K]"
| "decisionCall K (SET fv) = [SyncSet K fv]"
| "decisionCall K NOOP = []"

text \<open>
  The keys that get a decision: those of the snapshot, then those of the refresh map that
  the snapshot lacks.
\<close>

definition decisionKeys ::
  "KeyOpFieldsValuesTuple list \<Rightarrow> (string \<times> KeyOpFieldsValuesTuple) list \<Rightarrow> string list" where
  "decisionKeys snapshot refresh =
     map kfvKey snapshot @ filter (\<lambda>k. k \<notin> kfvKey ` set snapshot) (map fst refresh)"


text \<open>
  The keys that \<open>reconcile\<close> gets to decide: all of them when the pass over the snapshot
  gets through, and the keys of the records before the failing comparison otherwise.
\<close>

definition decidedKeys ::
  "KeyOpFieldsValuesTuple list \<Rightarrow> (string \<times> KeyOpFieldsValuesTuple) list \<Rightarrow> string list" where
  "decidedKeys snapshot refresh =
     (if specProcessed (map_of refresh) snapshot = snapshot
      then decisionKeys snapshot refresh
      else map kfvKey (specProcessed (map_of refresh) snapshot))"


section \<open>Example states\<close>

text \<open>
  A helper of the application fpmsyncd in state RESTORED, with a snapshot and a refresh
  map: what \<open>isEnabled\<close>, \<open>runRestoration\<close> and calls of \<open>insertRefreshMap\<close> lead to.
\<close>

definition restoredHelper ::
  "KeyOpFieldsValuesTuple list \<Rightarrow> (string \<times> KeyOpFieldsValuesTuple) list \<Rightarrow> WarmStartHelper"
  where
  "restoredHelper snapshot refresh =
     \<lparr>m_appName = ''fpmsyncd'', m_enabled = True, m_state = RESTORED,
      m_restorationVector = snapshot, m_refreshMap = refresh,
      m_syncTable = [SyncClear],
      stateStore = [(''fpmsyncd'', INITIALIZED), (''fpmsyncd'', RESTORED)]\<rparr>"

text \<open>A helper before any call on it.\<close>

definition freshHelper :: WarmStartHelper where
  "freshHelper =
     \<lparr>m_appName = ''fpmsyncd'', m_enabled = False, m_state = INITIALIZED,
      m_restorationVector = [], m_refreshMap = [], m_syncTable = [], stateStore = []\<rparr>"


text \<open>
  A snapshot of four routes and a refresh map that drops the first, changes the second,
  repeats the third with its values in another order, deletes the fourth and adds a fifth.
\<close>

definition exampleSnapshot :: "KeyOpFieldsValuesTuple list" where
  "exampleSnapshot =
     [(''10.0.1.0/24'', '''', [(''nexthop'', ''10.1.1.1''), (''ifname'', ''Ethernet1'')]),
      (''10.0.2.0/24'', '''', [(''nexthop'', ''10.1.1.1''), (''ifname'', ''Ethernet1'')]),
      (''10.0.3.0/24'', '''', [(''nexthop'', ''10.1.1.1,10.1.1.2''),
                               (''ifname'', ''Ethernet1,Ethernet2'')]),
      (''10.0.4.0/24'', '''', [(''nexthop'', ''10.1.1.1''), (''ifname'', ''Ethernet1'')])]"

definition exampleRefresh :: "(string \<times> KeyOpFieldsValuesTuple) list" where
  "exampleRefresh =
     [(''10.0.2.0/24'', (''10.0.2.0/24'', ''SET'',
         [(''nexthop'', ''10.1.1.2''), (''ifname'', ''Ethernet2'')])),
      (''10.0.3.0/24'', (''10.0.3.0/24'', ''SET'',
         [(''nexthop'', ''10.1.1.2,10.1.1.1''), (''ifname'', ''Ethernet2,Ethernet1'')])),
      (''10.0.4.0/24'', (''10.0.4.0/24'', ''DEL'', [])),
      (''10.0.5.0/24'', (''10.0.5.0/24'', ''SET'',
         [(''nexthop'', ''10.1.1.1''), (''ifname'', ''Ethernet1'')]))]"


text \<open>
  A snapshot of four routes and a refresh map that changes the first, with one field more
  behind the changed one, drops the second, and refreshes the third with a new field in
  front: the comparison of the third fails the field assertion.
\<close>

definition abortSnapshot :: "KeyOpFieldsValuesTuple list" where
  "abortSnapshot =
     [(''10.0.1.0/24'', '''', [(''nexthop'', ''10.1.1.1'')]),
      (''10.0.2.0/24'', '''', [(''nexthop'', ''10.1.1.1'')]),
      (''10.0.3.0/24'', '''', [(''nexthop'', ''10.1.1.1'')]),
      (''10.0.4.0/24'', '''', [(''nexthop'', ''10.1.1.1'')])]"

definition abortRefresh :: "(string \<times> KeyOpFieldsValuesTuple) list" where
  "abortRefresh =
     [(''10.0.1.0/24'', (''10.0.1.0/24'', ''SET'',
         [(''nexthop'', ''10.1.1.2''), (''ifname'', ''Ethernet2'')])),
      (''10.0.3.0/24'', (''10.0.3.0/24'', ''SET'',
         [(''ifname'', ''Ethernet1''), (''nexthop'', ''10.1.1.1'')]))]"


section \<open>Properties of the comparator\<close>

lemma compareSorted_iff:
  "length xs = length ys \<Longrightarrow> compareSorted i xs ys \<longleftrightarrow> drop i xs \<noteq> drop i ys"
proof (induction i xs ys rule: compareSorted.induct)
  case (1 i xs ys)
  show ?case
  proof (cases "i < length xs")
    case True
    with "1.prems" have dx: "drop i xs = xs ! i # drop (Suc i) xs"
      and dy: "drop i ys = ys ! i # drop (Suc i) ys"
      by (simp_all add: Cons_nth_drop_Suc)
    show ?thesis
    proof (cases "xs ! i = ys ! i")
      case True
      with \<open>i < length xs\<close> "1.IH" "1.prems" dx dy show ?thesis
        by (subst compareSorted.simps) simp
    next
      case False
      with \<open>i < length xs\<close> dx dy show ?thesis
        by (subst compareSorted.simps) simp
    qed
  next
    case False
    with "1.prems" show ?thesis
      by (subst compareSorted.simps) simp
  qed
qed

lemma sort_eq_iff_mset:
  fixes xs ys :: "('a::linorder) list"
  shows "sort xs = sort ys \<longleftrightarrow> mset xs = mset ys"
proof
  assume "sort xs = sort ys"
  then have "mset (sort xs) = mset (sort ys)" by simp
  then show "mset xs = mset ys" by simp
next
  assume "mset xs = mset ys"
  then show "sort xs = sort ys"
    by (metis properties_for_sort sorted_sort mset_sort)
qed

lemma compareOneFV_iff:
  "compareOneFV s1 s2 \<longleftrightarrow>
     length s1 \<noteq> length s2 \<or> mset (tokenize s1 CHR '','') \<noteq> mset (tokenize s2 CHR '','')"
proof -
  have neq: "mset xs \<noteq> mset ys" if "length xs \<noteq> length ys" for xs ys :: "string list"
    using that by (metis size_mset)
  show ?thesis
    using neq [of "tokenize s1 CHR '',''" "tokenize s2 CHR '',''"]
    by (auto simp: compareOneFV_def Let_def compareSorted_iff sort_eq_iff_mset)
qed

lemma tokenize_not_Nil: "tokenize s d \<noteq> []"
  by (induction s) (auto split: list.splits)

lemma tokenize_length:
  "sum_list (map length (tokenize s d)) + length (tokenize s d) = Suc (length s)"
  by (induction s) (auto split: list.splits simp: tokenize_not_Nil)

lemma tokenize_mset_length:
  assumes "mset (tokenize s1 d) = mset (tokenize s2 d)"
  shows "length s1 = length s2"
proof -
  from assms have "mset (map length (tokenize s1 d)) = mset (map length (tokenize s2 d))"
    by (metis mset_map)
  then have "sum_list (map length (tokenize s1 d)) = sum_list (map length (tokenize s2 d))"
    by (metis sum_mset_sum_list)
  moreover from assms have "length (tokenize s1 d) = length (tokenize s2 d)"
    by (metis size_mset)
  ultimately show ?thesis
    using tokenize_length [of s1 d] tokenize_length [of s2 d] by simp
qed

lemma tokenize_plain: "d \<notin> set s \<Longrightarrow> tokenize s d = [s]"
  by (induction s) auto

lemma tokenize_single: "tokenize s d = [t] \<Longrightarrow> t = s"
  by (induction s arbitrary: t) (auto split: if_splits list.splits simp: tokenize_not_Nil)


section \<open>Properties of reconciliation\<close>

lemma map_of_delete_upd: "map_of (AList.delete k al) = (map_of al)(k := None)"
  by (rule ext) (simp add: AList.delete_conv)

lemma filter_delete:
  "filter (\<lambda>e. fst e \<notin> S) (AList.delete k al) = filter (\<lambda>e. fst e \<noteq> k \<and> fst e \<notin> S) al"
  by (induction al) auto

lemma filter_absent:
  "map_of al k = None \<Longrightarrow>
   filter (\<lambda>e. fst e \<noteq> k \<and> fst e \<notin> S) al = filter (\<lambda>e. fst e \<notin> S) al"
  by (rule filter_cong) (auto simp: map_of_eq_None_iff)

lemma noFieldFault_Cons:
  "noFieldFault (R # rs) al \<longleftrightarrow>
     (case map_of al (kfvKey R) of None \<Rightarrow> True
      | Some r \<Rightarrow> kfvOp r = DEL_COMMAND
          \<or> compareAllFV (kfvFieldsValues R) (kfvFieldsValues r) \<noteq> Inl FieldAssertion)
     \<and> noFieldFault rs al"
  by (simp add: noFieldFault_def)

lemma noFieldFault_delete: "noFieldFault rs al \<Longrightarrow> noFieldFault rs (AList.delete k al)"
  by (auto simp: noFieldFault_def map_of_delete_upd split: option.splits)

lemma compareAllFV_fault: "compareAllFV v1 v2 = Inl f \<Longrightarrow> f = FieldAssertion"
  by (induction v2) (auto split: option.splits if_splits)

lemma compareAllFV_cases:
  "compareAllFV v1 v2 = Inl FieldAssertion \<or> compareAllFV v1 v2 = Inr True
   \<or> compareAllFV v1 v2 = Inr False"
  by (cases "compareAllFV v1 v2") (auto dest: compareAllFV_fault)

lemma reconcileRestored_spec_aux:
  "noFieldFault rs al \<Longrightarrow> m_refreshMap h = al \<Longrightarrow>
   reconcileRestored rs h =
     Inr (h\<lparr>m_refreshMap := filter (\<lambda>e. fst e \<notin> kfvKey ` set rs) al,
           m_syncTable := m_syncTable h @ specSnapshotPass (map_of al) rs\<rparr>)"
proof (induction rs arbitrary: h al)
  case Nil
  then show ?case by simp
next
  case (Cons R rs)
  from Cons.prems have rest: "noFieldFault rs al"
    by (simp add: noFieldFault_Cons)
  let ?k = "kfvKey R"
  let ?al = "AList.delete ?k al"
  have del: "noFieldFault rs ?al"
    using rest by (rule noFieldFault_delete)
  show ?case
  proof (cases "map_of al ?k")
    case None
    have "m_refreshMap (syncTable_del ?k h) = al"
      using Cons.prems by (simp add: syncTable_del_def)
    from Cons.IH [OF rest this] None Cons.prems(2) show ?thesis
      by (simp add: Let_def syncTable_del_def specRecordCalls_def filter_absent fun_upd_idem)
  next
    case (Some r)
    show ?thesis
    proof (cases "kfvOp r = DEL_COMMAND")
      case True
      have "m_refreshMap ((syncTable_del ?k h)\<lparr>m_refreshMap := ?al\<rparr>) = ?al"
        by simp
      from Cons.IH [OF del this] Some True Cons.prems(2) show ?thesis
        by (simp add: Let_def syncTable_del_def specRecordCalls_def filter_delete
            map_of_delete_upd fun_upd_def)
    next
      case False
      from Cons.prems Some False
      have nf: "compareAllFV (kfvFieldsValues R) (kfvFieldsValues r) \<noteq> Inl FieldAssertion"
        by (simp add: noFieldFault_Cons)
      with compareAllFV_cases [of "kfvFieldsValues R" "kfvFieldsValues r"]
      consider (changed) "compareAllFV (kfvFieldsValues R) (kfvFieldsValues r) = Inr True"
        | (same) "compareAllFV (kfvFieldsValues R) (kfvFieldsValues r) = Inr False"
        by blast
      then show ?thesis
      proof cases
        case changed
        have "m_refreshMap ((syncTable_set (kfvKey r) (kfvFieldsValues r) h)
                   \<lparr>m_refreshMap := ?al\<rparr>) = ?al"
          by simp
        from Cons.IH [OF del this] Some False changed Cons.prems(2) show ?thesis
          by (simp add: Let_def syncTable_set_def specRecordCalls_def filter_delete
              map_of_delete_upd fun_upd_def)
      next
        case same
        have "m_refreshMap (h\<lparr>m_refreshMap := ?al\<rparr>) = ?al"
          by simp
        from Cons.IH [OF del this] Some False same Cons.prems(2) show ?thesis
          by (simp add: Let_def specRecordCalls_def filter_delete map_of_delete_upd fun_upd_def)
      qed
    qed
  qed
qed

lemma reconcileRestored_spec:
  "noFieldFault rs (m_refreshMap h) \<Longrightarrow>
   reconcileRestored rs h =
     Inr (h\<lparr>m_refreshMap := filter (\<lambda>e. fst e \<notin> kfvKey ` set rs) (m_refreshMap h),
           m_syncTable := m_syncTable h @ specSnapshotPass (map_of (m_refreshMap h)) rs\<rparr>)"
  by (rule reconcileRestored_spec_aux) simp_all

lemma reconcileRefreshed_spec:
  "reconcileRefreshed es h = h\<lparr>m_syncTable := m_syncTable h @ map setCall es\<rparr>"
  by (induction es arbitrary: h) (simp_all add: syncTable_set_def setCall_def)

lemma reconcile_spec:
  assumes "getState h = RESTORED"
    and "noFieldFault (m_restorationVector h) (m_refreshMap h)"
  shows "reconcile h =
     Inr (h\<lparr>m_syncTable := m_syncTable h
              @ specSnapshotPass (map_of (m_refreshMap h)) (m_restorationVector h)
              @ map setCall (filter (\<lambda>e. fst e \<notin> kfvKey ` set (m_restorationVector h))
                               (m_refreshMap h)),
           m_refreshMap := [], m_restorationVector := [],
           stateStore := stateStore h @ [(m_appName h, RECONCILED)],
           m_state := RECONCILED\<rparr>)"
  using assms
  by (simp add: reconcile_def reconcileRestored_spec reconcileRefreshed_spec setState_def)

lemma reconcileRestored_step:
  obtains (abort) "reconcileRestored (R # rs) h = Inl (FieldAssertion, h)"
  | (continue) h1 where "reconcileRestored (R # rs) h = reconcileRestored rs h1"
      and "m_enabled h1 = m_enabled h" and "m_state h1 = m_state h"
proof (cases "map_of (m_refreshMap h) (kfvKey R)")
  case None
  show ?thesis
    by (rule continue [of "syncTable_del (kfvKey R) h"])
      (simp_all add: None syncTable_del_def Let_def)
next
  case (Some r)
  let ?al = "AList.delete (kfvKey R) (m_refreshMap h)"
  show ?thesis
  proof (cases "kfvOp r = DEL_COMMAND")
    case True
    show ?thesis
      by (rule continue [of "(syncTable_del (kfvKey R) h)\<lparr>m_refreshMap := ?al\<rparr>"])
        (simp_all add: Some True syncTable_del_def Let_def)
  next
    case False
    from compareAllFV_cases [of "kfvFieldsValues R" "kfvFieldsValues r"]
    consider (fault) "compareAllFV (kfvFieldsValues R) (kfvFieldsValues r) = Inl FieldAssertion"
      | (changed) "compareAllFV (kfvFieldsValues R) (kfvFieldsValues r) = Inr True"
      | (same) "compareAllFV (kfvFieldsValues R) (kfvFieldsValues r) = Inr False"
      by blast
    then show ?thesis
    proof cases
      case fault
      show ?thesis
        by (rule abort) (simp add: Some False fault Let_def)
    next
      case changed
      show ?thesis
        by (rule continue [of "(syncTable_set (kfvKey r) (kfvFieldsValues r) h)
              \<lparr>m_refreshMap := ?al\<rparr>"])
          (simp_all add: Some False changed syncTable_set_def Let_def)
    next
      case same
      show ?thesis
        by (rule continue [of "h\<lparr>m_refreshMap := ?al\<rparr>"])
          (simp_all add: Some False same Let_def)
    qed
  qed
qed

lemma reconcileRestored_frame:
  assumes "reconcileRestored rs h = Inr h1 \<or> reconcileRestored rs h = Inl (f, h1)"
  shows "m_enabled h1 = m_enabled h \<and> m_state h1 = m_state h
    \<and> (reconcileRestored rs h = Inl (f, h1) \<longrightarrow> f = FieldAssertion)"
  using assms
proof (induction rs arbitrary: h)
  case Nil
  then show ?case by simp
next
  case (Cons R rs)
  show ?case
  proof (cases R rs h rule: reconcileRestored_step)
    case abort
    with Cons.prems show ?thesis by simp
  next
    case (continue h2)
    with Cons.prems Cons.IH [of h2] show ?thesis by simp
  qed
qed

lemma reconcile_frame:
  assumes "reconcile h = Inl (f, h1)"
  shows "m_enabled h1 = m_enabled h \<and> m_state h1 = m_state h"
proof (cases "getState h = RESTORED")
  case False
  with assms show ?thesis by (simp add: reconcile_def)
next
  case True
  with assms have "reconcileRestored (m_restorationVector h) h = Inl (f, h1)"
    by (simp add: reconcile_def Let_def split: sum.splits)
  then show ?thesis
    using reconcileRestored_frame [of "m_restorationVector h" h h1 f] by simp
qed

lemma reconcile_returns:
  assumes "reconcile h = Inr h1"
  shows "m_enabled h1 = m_enabled h \<and> m_state h1 = RECONCILED \<and> getState h = RESTORED"
proof (cases "getState h = RESTORED")
  case False
  with assms show ?thesis by (simp add: reconcile_def)
next
  case True
  with assms obtain h2 where h2: "reconcileRestored (m_restorationVector h) h = Inr h2"
    and h1: "h1 = setState RECONCILED
        ((reconcileRefreshed (m_refreshMap h2) h2)\<lparr>m_refreshMap := [], m_restorationVector := []\<rparr>)"
    by (simp add: reconcile_def Let_def split: sum.splits)
  from h2 have "m_enabled h2 = m_enabled h"
    using reconcileRestored_frame [of "m_restorationVector h" h h2 FieldAssertion] by simp
  with h1 True show ?thesis
    by (simp add: setState_def reconcileRefreshed_spec)
qed

lemma exec_enabled:
  assumes "exec c h = Inr h1 \<or> exec c h = Inl (f, h1)"
  shows "m_enabled h1 = m_enabled h"
proof (cases c)
  case (SetState s)
  with assms show ?thesis by (auto simp: setState_def)
next
  case (RunRestoration content)
  with assms show ?thesis
    by (cases "content = []") (auto simp: runRestoration_def setState_def Let_def)
next
  case (InsertRefreshMap kfv)
  with assms show ?thesis by (auto simp: insertRefreshMap_def Let_def)
next
  case Reconcile
  with assms reconcile_frame [of h f h1] reconcile_returns [of h h1] show ?thesis by auto
qed

lemma run_enabled:
  assumes "run cs h = Inr h1 \<or> run cs h = Inl (f, h1)"
  shows "m_enabled h1 = m_enabled h"
  using assms
proof (induction cs arbitrary: h)
  case Nil
  then show ?case by simp
next
  case (Cons c cs)
  show ?case
  proof (cases "exec c h")
    case (Inl e)
    with Cons.prems have "exec c h = Inl (f, h1)" by simp
    then show ?thesis using exec_enabled [of c h h1 f] by simp
  next
    case (Inr h2)
    with Cons.prems have "run cs h2 = Inr h1 \<or> run cs h2 = Inl (f, h1)" by simp
    then have "m_enabled h1 = m_enabled h2" by (rule Cons.IH)
    moreover from Inr have "m_enabled h2 = m_enabled h"
      using exec_enabled [of c h h2 f] by simp
    ultimately show ?thesis by simp
  qed
qed


lemma specSnapshotPass_cong:
  "(\<And>R. R \<in> set rs \<Longrightarrow> m1 (kfvKey R) = m2 (kfvKey R)) \<Longrightarrow>
   specSnapshotPass m1 rs = specSnapshotPass m2 rs"
proof (induction rs arbitrary: m1 m2)
  case Nil
  show ?case by simp
next
  case (Cons R rs)
  have "specRecordCalls m1 R = specRecordCalls m2 R"
    using Cons.prems [of R] by (simp add: specRecordCalls_def)
  moreover have "specSnapshotPass (m1(kfvKey R := None)) rs
      = specSnapshotPass (m2(kfvKey R := None)) rs"
    by (rule Cons.IH) (use Cons.prems in auto)
  ultimately show ?case by simp
qed

lemma specSnapshotPass_distinct:
  "distinct (map kfvKey rs) \<Longrightarrow>
   specSnapshotPass m rs = concat (map (specRecordCalls m) rs)"
proof (induction rs arbitrary: m)
  case Nil
  show ?case by simp
next
  case (Cons R rs)
  from Cons.prems have notin: "kfvKey R \<notin> kfvKey ` set rs" and d: "distinct (map kfvKey rs)"
    by auto
  have "specSnapshotPass (m(kfvKey R := None)) rs = specSnapshotPass m rs"
  proof (rule specSnapshotPass_cong)
    fix R' assume "R' \<in> set rs"
    with notin have "kfvKey R' \<noteq> kfvKey R" by (metis image_eqI)
    then show "(m(kfvKey R := None)) (kfvKey R') = m (kfvKey R')" by simp
  qed
  with Cons.IH [OF d, of m] show ?case by simp
qed

lemma reconcileCalls_spec:
  assumes "getState h = RESTORED"
    and "noFieldFault (m_restorationVector h) (m_refreshMap h)"
  shows "reconcileCalls h =
     specSnapshotPass (map_of (m_refreshMap h)) (m_restorationVector h)
     @ map setCall (filter (\<lambda>e. fst e \<notin> kfvKey ` set (m_restorationVector h))
                      (m_refreshMap h))"
  by (simp add: reconcileCalls_def reconcile_spec [OF assms])


section \<open>The calls of reconcile as an edit script\<close>

lemma compareAllFV_subset:
  "set (map fvField v2) \<subseteq> set (map fvField v1) \<Longrightarrow>
   compareAllFV v1 v2 =
     Inr (\<exists>fv \<in> set v2. case map_of v1 (fvField fv) of
                           None \<Rightarrow> False
                         | Some a \<Rightarrow> compareOneFV a (fvValue fv))"
proof (induction v2)
  case Nil
  show ?case by simp
next
  case (Cons fv v2)
  from Cons.prems have "fvField fv \<in> fst ` set v1"
    by (auto simp: fvField_def)
  then obtain a where a: "map_of v1 (fvField fv) = Some a"
    by (metis map_of_eq_None_iff not_Some_eq)
  from Cons.prems have "set (map fvField v2) \<subseteq> set (map fvField v1)"
    by simp
  from Cons.IH [OF this] a show ?case by simp
qed

lemma decisionCall_keys: "c \<in> set (decisionCall K d) \<Longrightarrow> callKey c = Some K"
  by (cases d) auto

lemma decisionCalls_distinct:
  "distinct ks \<Longrightarrow> distinct (map callKey (concat (map (\<lambda>K. decisionCall K (d K)) ks)))"
proof (induction ks)
  case Nil
  show ?case by simp
next
  case (Cons K ks)
  have one: "distinct (map callKey (decisionCall K (d K)))"
    by (cases "d K") auto
  have "callKey c \<noteq> callKey c'"
    if "c \<in> set (decisionCall K (d K))"
      and "c' \<in> set (concat (map (\<lambda>K. decisionCall K (d K)) ks))" for c c'
  proof -
    from that(2) obtain K' where "K' \<in> set ks" and "c' \<in> set (decisionCall K' (d K'))"
      by auto
    with that(1) Cons.prems show ?thesis
      by (auto dest!: decisionCall_keys)
  qed
  with one Cons show ?case by auto
qed

lemma decisionCalls_del:
  "SyncDel K \<in> set (concat (map (\<lambda>K. decisionCall K (d K)) ks))
    \<longleftrightarrow> K \<in> set ks \<and> d K = DELETE"
proof -
  have "SyncDel K \<in> set (decisionCall K' x) \<longleftrightarrow> K' = K \<and> x = DELETE" for K' x
    by (cases x) auto
  then show ?thesis by auto
qed

lemma decisionCalls_set:
  "SyncSet K fv \<in> set (concat (map (\<lambda>K. decisionCall K (d K)) ks))
    \<longleftrightarrow> K \<in> set ks \<and> d K = SET fv"
proof -
  have "SyncSet K fv \<in> set (decisionCall K' x) \<longleftrightarrow> K' = K \<and> x = SET fv" for K' x
    by (cases x) auto
  then show ?thesis by auto
qed

lemma decisionCalls_clear:
  "SyncClear \<notin> set (concat (map (\<lambda>K. decisionCall K (d K)) ks))"
proof -
  have "SyncClear \<notin> set (decisionCall K' x)" for K' x
    by (cases x) auto
  then show ?thesis by auto
qed

lemma find_distinct_key:
  "distinct (map f xs) \<Longrightarrow> x \<in> set xs \<Longrightarrow> find (\<lambda>y. f y = f x) xs = Some x"
  by (induction xs) (auto simp: image_iff)

lemma setCall_decision:
  assumes ok: "refreshMapOk al" and dels: "deletesRestored rs al"
    and e: "e \<in> set al" and new: "fst e \<notin> kfvKey ` set rs"
  shows "[setCall e] = decisionCall (fst e) (specDecision rs (map_of al) (fst e))"
proof -
  have "kfvKey R' \<noteq> fst e" if "R' \<in> set rs" for R'
  proof -
    from that have "kfvKey R' \<in> kfvKey ` set rs" by (rule imageI)
    with new show ?thesis by auto
  qed
  then have f: "find (\<lambda>R'. kfvKey R' = fst e) rs = None"
    by (simp add: find_None_iff)
  from ok e have m: "map_of al (fst e) = Some (snd e)"
    by (simp add: refreshMapOk_def)
  from ok e have key: "kfvKey (snd e) = fst e"
    by (simp add: refreshMapOk_def)
  from dels e new have "kfvOp (snd e) \<noteq> DEL_COMMAND"
    by (auto simp: deletesRestored_def)
  with f m key show ?thesis
    by (simp add: specDecision_def setCall_def)
qed

lemma decisionKeys_distinct:
  "distinct (map kfvKey rs) \<Longrightarrow> refreshMapOk al \<Longrightarrow> distinct (decisionKeys rs al)"
  by (auto simp: decisionKeys_def refreshMapOk_def)

lemma specDecision_other:
  "K \<notin> set (decisionKeys rs al) \<Longrightarrow> specDecision rs (map_of al) K = NOOP"
proof -
  assume "K \<notin> set (decisionKeys rs al)"
  then have "K \<notin> kfvKey ` set rs" and "K \<notin> fst ` set al"
    by (auto simp: decisionKeys_def)
  then have "find (\<lambda>R. kfvKey R = K) rs = None" and "map_of al K = None"
    by (force simp: find_None_iff map_of_eq_None_iff)+
  then show ?thesis by (simp add: specDecision_def)
qed


lemma reconcileRestored_exact:
  "m_refreshMap h = al \<Longrightarrow>
   reconcileRestored rs h =
     (if specProcessed (map_of al) rs = rs
      then Inr (h\<lparr>m_refreshMap := filter (\<lambda>e. fst e \<notin> kfvKey ` set rs) al,
                 m_syncTable := m_syncTable h @ specSnapshotPass (map_of al) rs\<rparr>)
      else Inl (FieldAssertion,
             h\<lparr>m_refreshMap :=
                  filter (\<lambda>e. fst e \<notin> kfvKey ` set (specProcessed (map_of al) rs)) al,
               m_syncTable :=
                  m_syncTable h @ specSnapshotPass (map_of al) (specProcessed (map_of al) rs)\<rparr>))"
proof (induction rs arbitrary: h al)
  case Nil
  then show ?case by simp
next
  case (Cons R rs)
  let ?k = "kfvKey R"
  let ?al = "AList.delete ?k al"
  show ?case
  proof (cases "map_of al ?k")
    case None
    then have nf: "\<not> specRecordFaults (map_of al) R"
      by (simp add: specRecordFaults_def)
    have "m_refreshMap (syncTable_del ?k h) = al"
      using Cons.prems by (simp add: syncTable_del_def)
    from Cons.IH [OF this] None nf Cons.prems show ?thesis
      by (simp add: Let_def syncTable_del_def specRecordCalls_def filter_absent fun_upd_idem)
  next
    case (Some r)
    show ?thesis
    proof (cases "kfvOp r = DEL_COMMAND")
      case True
      with Some have nf: "\<not> specRecordFaults (map_of al) R"
        by (simp add: specRecordFaults_def)
      have "m_refreshMap ((syncTable_del ?k h)\<lparr>m_refreshMap := ?al\<rparr>) = ?al"
        by simp
      from Cons.IH [OF this] Some True nf Cons.prems show ?thesis
        by (simp add: Let_def syncTable_del_def specRecordCalls_def filter_delete
            map_of_delete_upd fun_upd_def)
    next
      case False
      from compareAllFV_cases [of "kfvFieldsValues R" "kfvFieldsValues r"]
      consider (fault) "compareAllFV (kfvFieldsValues R) (kfvFieldsValues r) = Inl FieldAssertion"
        | (changed) "compareAllFV (kfvFieldsValues R) (kfvFieldsValues r) = Inr True"
        | (same) "compareAllFV (kfvFieldsValues R) (kfvFieldsValues r) = Inr False"
        by blast
      then show ?thesis
      proof cases
        case fault
        with Some False have f: "specRecordFaults (map_of al) R"
          by (simp add: specRecordFaults_def)
        have "h\<lparr>m_refreshMap := al, m_syncTable := m_syncTable h\<rparr> = h"
          using Cons.prems by simp
        with Some False fault f Cons.prems show ?thesis
          by (simp add: Let_def)
      next
        case changed
        with Some False have nf: "\<not> specRecordFaults (map_of al) R"
          by (simp add: specRecordFaults_def)
        have "m_refreshMap ((syncTable_set (kfvKey r) (kfvFieldsValues r) h)
                   \<lparr>m_refreshMap := ?al\<rparr>) = ?al"
          by simp
        from Cons.IH [OF this] Some False changed nf Cons.prems show ?thesis
          by (simp add: Let_def syncTable_set_def specRecordCalls_def filter_delete
              map_of_delete_upd fun_upd_def)
      next
        case same
        with Some False have nf: "\<not> specRecordFaults (map_of al) R"
          by (simp add: specRecordFaults_def)
        have "m_refreshMap (h\<lparr>m_refreshMap := ?al\<rparr>) = ?al"
          by simp
        from Cons.IH [OF this] Some False same nf Cons.prems show ?thesis
          by (simp add: Let_def specRecordCalls_def filter_delete map_of_delete_upd
              fun_upd_def)
      qed
    qed
  qed
qed

lemma specProcessed_left:
  "specProcessed (map_of al) rs \<noteq> rs \<Longrightarrow>
   filter (\<lambda>e. fst e \<notin> kfvKey ` set (specProcessed (map_of al) rs)) al \<noteq> []"
proof (induction rs arbitrary: al)
  case Nil
  then show ?case by simp
next
  case (Cons R rs)
  show ?case
  proof (cases "specRecordFaults (map_of al) R")
    case True
    then obtain r where "map_of al (kfvKey R) = Some r"
      by (auto simp: specRecordFaults_def split: option.splits)
    then have "al \<noteq> []" by auto
    with True show ?thesis by simp
  next
    case False
    with Cons.prems
    have "specProcessed (map_of (AList.delete (kfvKey R) al)) rs \<noteq> rs"
      by (simp add: map_of_delete_upd)
    from Cons.IH [OF this] False show ?thesis
      by (simp add: filter_delete map_of_delete_upd fun_upd_def)
  qed
qed

lemma reconcile_exact:
  assumes "getState h = RESTORED"
  shows "reconcile h =
     (if specProcessed (map_of (m_refreshMap h)) (m_restorationVector h) = m_restorationVector h
      then Inr (h\<lparr>m_syncTable := m_syncTable h
                   @ specSnapshotPass (map_of (m_refreshMap h)) (m_restorationVector h)
                   @ map setCall (filter (\<lambda>e. fst e \<notin> kfvKey ` set (m_restorationVector h))
                                    (m_refreshMap h)),
                 m_refreshMap := [], m_restorationVector := [],
                 stateStore := stateStore h @ [(m_appName h, RECONCILED)],
                 m_state := RECONCILED\<rparr>)
      else Inl (FieldAssertion,
             h\<lparr>m_refreshMap :=
                  filter (\<lambda>e. fst e \<notin> kfvKey ` set
                            (specProcessed (map_of (m_refreshMap h)) (m_restorationVector h)))
                    (m_refreshMap h),
               m_syncTable :=
                  m_syncTable h @ specSnapshotPass (map_of (m_refreshMap h))
                    (specProcessed (map_of (m_refreshMap h)) (m_restorationVector h))\<rparr>))"
  using assms
  by (simp add: reconcile_def reconcileRestored_exact [of h "m_refreshMap h"]
      reconcileRefreshed_spec setState_def)

lemma compareAllFV_True:
  "compareAllFV v1 v2 = Inr True \<Longrightarrow>
   \<exists>fv2 \<in> set v2. \<exists>a. map_of v1 (fvField fv2) = Some a \<and> compareOneFV a (fvValue fv2)"
  by (induction v2) (auto split: option.splits if_splits)

lemma compareAllFV_False:
  "compareAllFV v1 v2 = Inr False \<Longrightarrow> fv2 \<in> set v2 \<Longrightarrow>
   \<exists>a. map_of v1 (fvField fv2) = Some a \<and> \<not> compareOneFV a (fvValue fv2)"
  by (induction v2) (auto split: option.splits if_splits)

lemma compareAllFV_changed:
  assumes d: "distinct (map fvField v1)"
    and nf: "compareAllFV v1 v2 \<noteq> Inl FieldAssertion"
    and np: "\<not> properPart v1 v2"
  shows "compareAllFV v1 v2 = Inr (specRecordChanged v1 v2)"
proof -
  from nf compareAllFV_cases [of v1 v2]
  consider (changed) "compareAllFV v1 v2 = Inr True" | (same) "compareAllFV v1 v2 = Inr False"
    by blast
  then show ?thesis
  proof cases
    case changed
    from compareAllFV_True [OF this] obtain fv2 a where fv2: "fv2 \<in> set v2"
      and a: "map_of v1 (fvField fv2) = Some a" and c: "compareOneFV a (fvValue fv2)"
      by blast
    from a have in1: "(fvField fv2, a) \<in> set v1" by (rule map_of_SomeD)
    from c have "fvField (fvField fv2, a) = fvField fv2
        \<and> compareOneFV (fvValue (fvField fv2, a)) (fvValue fv2)"
      by (simp add: fvField_def fvValue_def)
    with in1 fv2 have "\<exists>fv1 \<in> set v1. \<exists>fv2 \<in> set v2.
         fvField fv1 = fvField fv2 \<and> compareOneFV (fvValue fv1) (fvValue fv2)"
      by blast
    with changed show ?thesis by (simp add: specRecordChanged_def)
  next
    case same
    have all: "\<exists>a. map_of v1 (fvField fv2) = Some a \<and> \<not> compareOneFV a (fvValue fv2)"
      if "fv2 \<in> set v2" for fv2
      using same that by (rule compareAllFV_False)
    then have "\<forall>fv2 \<in> set v2. case map_of v1 (fvField fv2) of
        None \<Rightarrow> False | Some v \<Rightarrow> \<not> compareOneFV v (fvValue fv2)"
      by force
    with np have only1: "\<not> (\<exists>fv1 \<in> set v1. fvField fv1 \<notin> fvField ` set v2)"
      by (simp add: properPart_def)
    have only2: "\<not> (\<exists>fv2 \<in> set v2. fvField fv2 \<notin> fvField ` set v1)"
    proof
      assume "\<exists>fv2 \<in> set v2. fvField fv2 \<notin> fvField ` set v1"
      then obtain fv2 where fv2: "fv2 \<in> set v2" and out: "fvField fv2 \<notin> fvField ` set v1"
        by blast
      from all [OF fv2] obtain a where "map_of v1 (fvField fv2) = Some a" by blast
      then have "(fvField fv2, a) \<in> set v1" by (rule map_of_SomeD)
      then have "fvField (fvField fv2, a) \<in> fvField ` set v1" by (rule imageI)
      with out show False by (simp add: fvField_def)
    qed
    have differ: "\<not> (\<exists>fv1 \<in> set v1. \<exists>fv2 \<in> set v2.
         fvField fv1 = fvField fv2 \<and> compareOneFV (fvValue fv1) (fvValue fv2))"
    proof
      assume "\<exists>fv1 \<in> set v1. \<exists>fv2 \<in> set v2.
         fvField fv1 = fvField fv2 \<and> compareOneFV (fvValue fv1) (fvValue fv2)"
      then obtain fv1 fv2 where fv1: "fv1 \<in> set v1" and fv2: "fv2 \<in> set v2"
        and f: "fvField fv1 = fvField fv2" and c: "compareOneFV (fvValue fv1) (fvValue fv2)"
        by blast
      from d have "distinct (map fst v1)" by (simp add: fvField_def [abs_def])
      moreover from fv1 have "(fst fv1, snd fv1) \<in> set v1" by simp
      ultimately have "map_of v1 (fst fv1) = Some (snd fv1)" by (rule map_of_is_SomeI)
      with f have "map_of v1 (fvField fv2) = Some (fvValue fv1)"
        by (simp add: fvField_def fvValue_def)
      with all [OF fv2] c show False by simp
    qed
    from same only1 only2 differ show ?thesis by (simp add: specRecordChanged_def)
  qed
qed

lemma specRecordFaults_cong:
  "m1 (kfvKey R) = m2 (kfvKey R) \<Longrightarrow> specRecordFaults m1 R = specRecordFaults m2 R"
  by (simp add: specRecordFaults_def)

lemma specProcessed_props:
  "distinct (map kfvKey rs) \<Longrightarrow>
   distinct (map kfvKey (specProcessed m rs))
   \<and> set (specProcessed m rs) \<subseteq> set rs
   \<and> (\<forall>R \<in> set (specProcessed m rs). \<not> specRecordFaults m R)"
proof (induction rs arbitrary: m)
  case Nil
  show ?case by simp
next
  case (Cons R rs)
  from Cons.prems have notin: "kfvKey R \<notin> kfvKey ` set rs" and d: "distinct (map kfvKey rs)"
    by auto
  let ?m = "m(kfvKey R := None)"
  note ih = Cons.IH [OF d, of ?m]
  have ih1: "distinct (map kfvKey (specProcessed ?m rs))"
    by (rule ih [THEN conjunct1])
  have ih2: "set (specProcessed ?m rs) \<subseteq> set rs"
    by (rule ih [THEN conjunct2, THEN conjunct1])
  have ih3: "\<forall>R' \<in> set (specProcessed ?m rs). \<not> specRecordFaults ?m R'"
    by (rule ih [THEN conjunct2, THEN conjunct2])
  have ih3': "\<not> specRecordFaults m R'" if "R' \<in> set (specProcessed ?m rs)" for R'
  proof -
    from that ih2 have "R' \<in> set rs" by blast
    then have "kfvKey R' \<in> kfvKey ` set rs" by (rule imageI)
    with notin have "kfvKey R' \<noteq> kfvKey R" by auto
    then have "?m (kfvKey R') = m (kfvKey R')" by simp
    then have "specRecordFaults ?m R' = specRecordFaults m R'"
      by (rule specRecordFaults_cong [of ?m R' m])
    with ih3 that show ?thesis by blast
  qed
  have new: "kfvKey R \<notin> kfvKey ` set (specProcessed ?m rs)"
    using notin ih2 by blast
  show ?case
  proof (cases "specRecordFaults m R")
    case True
    then show ?thesis by simp
  next
    case False
    with ih1 ih2 ih3' new show ?thesis by auto
  qed
qed

lemma specRecordCalls_decision:
  assumes ok: "snapshotOk rs" and rok: "refreshMapOk al"
    and np: "noProperPart rs al" and R: "R \<in> set rs"
    and nf: "\<not> specRecordFaults (map_of al) R"
  shows "specRecordCalls (map_of al) R
     = decisionCall (kfvKey R) (specDecision rs (map_of al) (kfvKey R))"
proof -
  from ok have d: "distinct (map kfvKey rs)" by (simp add: snapshotOk_def)
  have f: "find (\<lambda>R'. kfvKey R' = kfvKey R) rs = Some R"
    using d R by (rule find_distinct_key)
  show ?thesis
  proof (cases "map_of al (kfvKey R)")
    case None
    with f show ?thesis by (simp add: specRecordCalls_def specDecision_def)
  next
    case (Some r)
    then have "(kfvKey R, r) \<in> set al" by (rule map_of_SomeD)
    with rok have key: "kfvKey r = kfvKey R" by (force simp: refreshMapOk_def)
    show ?thesis
    proof (cases "kfvOp r = DEL_COMMAND")
      case True
      with f Some show ?thesis by (simp add: specRecordCalls_def specDecision_def)
    next
      case False
      from ok R have d1: "distinct (map fvField (kfvFieldsValues R))"
        by (simp add: snapshotOk_def)
      from nf Some False
      have nf': "compareAllFV (kfvFieldsValues R) (kfvFieldsValues r) \<noteq> Inl FieldAssertion"
        by (simp add: specRecordFaults_def)
      from np R Some False have "\<not> properPart (kfvFieldsValues R) (kfvFieldsValues r)"
        by (force simp: noProperPart_def)
      with d1 nf' have "compareAllFV (kfvFieldsValues R) (kfvFieldsValues r)
          = Inr (specRecordChanged (kfvFieldsValues R) (kfvFieldsValues r))"
        by (rule compareAllFV_changed)
      with f Some False key show ?thesis
        by (simp add: specRecordCalls_def specDecision_def)
    qed
  qed
qed

lemma reconcileCalls_exact:
  assumes "getState h = RESTORED"
  shows "reconcileCalls h =
     (if specProcessed (map_of (m_refreshMap h)) (m_restorationVector h) = m_restorationVector h
      then specSnapshotPass (map_of (m_refreshMap h)) (m_restorationVector h)
           @ map setCall (filter (\<lambda>e. fst e \<notin> kfvKey ` set (m_restorationVector h))
                            (m_refreshMap h))
      else specSnapshotPass (map_of (m_refreshMap h))
             (specProcessed (map_of (m_refreshMap h)) (m_restorationVector h)))"
  by (simp add: reconcileCalls_def reconcile_exact [OF assms])

lemma reconcileCalls_decisions:
  assumes st: "getState h = RESTORED"
    and ok: "snapshotOk (m_restorationVector h)"
    and rok: "refreshMapOk (m_refreshMap h)"
    and dels: "deletesRestored (m_restorationVector h) (m_refreshMap h)"
    and np: "noProperPart (m_restorationVector h) (m_refreshMap h)"
  shows "reconcileCalls h =
     concat (map (\<lambda>K. decisionCall K
                    (specDecision (m_restorationVector h) (map_of (m_refreshMap h)) K))
               (decidedKeys (m_restorationVector h) (m_refreshMap h)))"
proof -
  let ?rs = "m_restorationVector h" and ?al = "m_refreshMap h"
  let ?done = "specProcessed (map_of ?al) ?rs"
  let ?g = "\<lambda>K. decisionCall K (specDecision ?rs (map_of ?al) K)"
  from ok have d: "distinct (map kfvKey ?rs)" by (simp add: snapshotOk_def)
  from specProcessed_props [OF d, of "map_of ?al"]
  have dd: "distinct (map kfvKey ?done)" and sub: "set ?done \<subseteq> set ?rs"
    and nf: "\<And>R. R \<in> set ?done \<Longrightarrow> \<not> specRecordFaults (map_of ?al) R"
    by simp_all
  have "specSnapshotPass (map_of ?al) ?done = concat (map (specRecordCalls (map_of ?al)) ?done)"
    using dd by (rule specSnapshotPass_distinct)
  also have "map (specRecordCalls (map_of ?al)) ?done = map (\<lambda>R. ?g (kfvKey R)) ?done"
  proof (rule map_cong [OF refl])
    fix R assume R: "R \<in> set ?done"
    with sub have "R \<in> set ?rs" by blast
    from specRecordCalls_decision [OF ok rok np this nf [OF R]]
    show "specRecordCalls (map_of ?al) R = ?g (kfvKey R)" .
  qed
  finally have p1: "specSnapshotPass (map_of ?al) ?done = concat (map ?g (map kfvKey ?done))"
    by (simp add: comp_def)
  let ?new = "filter (\<lambda>e. fst e \<notin> kfvKey ` set ?rs) ?al"
  have "map setCall ?new = concat (map (\<lambda>e. [setCall e]) ?new)"
    by (induction ?new) simp_all
  also have "map (\<lambda>e. [setCall e]) ?new = map (\<lambda>e. ?g (fst e)) ?new"
    by (rule map_cong) (simp_all add: setCall_decision [OF rok dels])
  also have "map (\<lambda>e. ?g (fst e)) ?new
      = map ?g (filter (\<lambda>k. k \<notin> kfvKey ` set ?rs) (map fst ?al))"
    by (simp add: filter_map comp_def)
  finally have p2: "map setCall ?new
      = concat (map ?g (filter (\<lambda>k. k \<notin> kfvKey ` set ?rs) (map fst ?al)))" .
  show ?thesis
  proof (cases "?done = ?rs")
    case True
    with p1 have "specSnapshotPass (map_of ?al) ?rs = concat (map ?g (map kfvKey ?rs))"
      by simp
    with reconcileCalls_exact [OF st] True p2 show ?thesis
      by (simp add: decidedKeys_def decisionKeys_def)
  next
    case False
    with reconcileCalls_exact [OF st] p1 show ?thesis
      by (simp add: decidedKeys_def)
  qed
qed

lemma decidedKeys_distinct:
  assumes "snapshotOk rs" and "refreshMapOk al"
  shows "distinct (decidedKeys rs al)"
proof -
  from assms(1) have d: "distinct (map kfvKey rs)" by (simp add: snapshotOk_def)
  from specProcessed_props [OF d, of "map_of al"] decisionKeys_distinct [OF d assms(2)]
  show ?thesis by (simp add: decidedKeys_def)
qed


section \<open>The claims\<close>

text \<open>
  Claim C3. \<open>compareOneFV\<close> cuts each value at its commas and reports no change exactly
  when the two token lists are equal as multisets. The addresses 10.1.1.1,10.1.1.2 and
  10.1.1.2,10.1.1.1 are unchanged, 10.1.1.1,10.1.1.2 and 10.1.1.1,10.1.1.3 are changed, and
  for a value without a comma the comparison is equality of the strings. The token lists are
  those of \<open>tokenize\<close> as modelled above; \<open>compareOneFV_iff\<close> is the part that holds whatever
  the tokens are.
\<close>

theorem compareOneFV_multiset:
  "(\<not> compareOneFV s1 s2 \<longleftrightarrow>
      mset (tokenize s1 CHR '','') = mset (tokenize s2 CHR '',''))
   \<and> \<not> compareOneFV ''10.1.1.1,10.1.1.2'' ''10.1.1.2,10.1.1.1''
   \<and> compareOneFV ''10.1.1.1,10.1.1.2'' ''10.1.1.1,10.1.1.3''
   \<and> (CHR '','' \<notin> set s1 \<or> CHR '','' \<notin> set s2 \<longrightarrow>
        (\<not> compareOneFV s1 s2 \<longleftrightarrow> s1 = s2))"
proof -
  have main: "\<not> compareOneFV a b \<longleftrightarrow>
      mset (tokenize a CHR '','') = mset (tokenize b CHR '','')" for a b
    using tokenize_mset_length [of a "CHR '',''" b] by (auto simp: compareOneFV_iff)
  have plain: "\<not> compareOneFV a b \<longleftrightarrow> a = b" if "CHR '','' \<notin> set a" for a b
  proof
    assume "\<not> compareOneFV a b"
    with that have "mset (tokenize b CHR '','') = mset [a]"
      by (simp add: main tokenize_plain)
    then have "tokenize b CHR '','' = [a]"
      by (metis mset_single_iff_right mset.simps(1,2))
    then show "a = b" by (rule tokenize_single)
  next
    assume "a = b"
    then show "\<not> compareOneFV a b" by (simp add: main)
  qed
  have ex1: "\<not> compareOneFV ''10.1.1.1,10.1.1.2'' ''10.1.1.2,10.1.1.1''"
    by code_simp
  have ex2: "compareOneFV ''10.1.1.1,10.1.1.2'' ''10.1.1.1,10.1.1.3''"
    by code_simp
  have sym: "compareOneFV a b = compareOneFV b a" for a b
    by (auto simp: compareOneFV_iff)
  show ?thesis
    using main [of s1 s2] plain [of s1 s2] plain [of s2 s1] sym [of s1 s2] ex1 ex2
    by auto
qed

theorem compareOneFV_multiset_witness:
  "CHR '','' \<notin> set ''Ethernet1'' \<and> compareOneFV ''Ethernet1'' ''Ethernet2''
   \<and> \<not> compareOneFV ''Ethernet1'' ''Ethernet1''"
  using compareOneFV_multiset [of "''Ethernet1''" "''Ethernet2''"]
    compareOneFV_multiset [of "''Ethernet1''" "''Ethernet1''"]
  by simp

text \<open>
  Claim C6. \<open>runRestoration\<close> stores the records of the restoration table in the
  restoration vector. With no record it sets the state to RECONCILED and returns false; with
  records it sets the state to RESTORED and returns true. It touches neither the refresh
  map nor the sink.
\<close>

theorem runRestoration_outcome:
  "fst (runRestoration content h) = (content \<noteq> [])
   \<and> m_restorationVector (snd (runRestoration content h)) = content
   \<and> getState (snd (runRestoration content h))
       = (if content = [] then RECONCILED else RESTORED)
   \<and> stateStore (snd (runRestoration content h))
       = stateStore h @ [(m_appName h, if content = [] then RECONCILED else RESTORED)]
   \<and> m_refreshMap (snd (runRestoration content h)) = m_refreshMap h
   \<and> m_syncTable (snd (runRestoration content h)) = m_syncTable h
   \<and> m_enabled (snd (runRestoration content h)) = m_enabled h"
  by (simp add: runRestoration_def setState_def getState_def Let_def)

text \<open>
  Claim C7. \<open>reconcile\<close> fails the state assertion when the cached state is not RESTORED,
  leaving the helper as it was. In state RESTORED that assertion does not fail: the call
  goes through the two passes and returns in state RECONCILED, unless the field assertion of
  the comparator ends it.
\<close>

theorem reconcile_ordering_assertion:
  "(getState h \<noteq> RESTORED \<longrightarrow> reconcile h = Inl (StateAssertion, h))
   \<and> (getState h = RESTORED \<longrightarrow>
        (\<forall>h1. reconcile h \<noteq> Inl (StateAssertion, h1))
        \<and> (case reconcile h of
              Inl (f, h1) \<Rightarrow> f = FieldAssertion \<and> getState h1 = RESTORED
            | Inr h1 \<Rightarrow> getState h1 = RECONCILED))"
proof -
  have "case reconcile h of
          Inl (f, h1) \<Rightarrow> f = FieldAssertion \<and> getState h1 = RESTORED
        | Inr h1 \<Rightarrow> getState h1 = RECONCILED"
    if restored: "getState h = RESTORED"
  proof (cases "reconcile h")
    case (Inl e)
    obtain f h1 where e: "e = (f, h1)" by (cases e)
    from Inl e restored
    have "reconcileRestored (m_restorationVector h) h = Inl (f, h1)"
      by (simp add: reconcile_def Let_def split: sum.splits)
    with reconcileRestored_frame [of "m_restorationVector h" h h1 f] Inl e restored
    show ?thesis by (simp add: getState_def)
  next
    case (Inr h1)
    with reconcile_returns [of h h1] show ?thesis by (simp add: getState_def)
  qed
  then show ?thesis
    by (auto simp: reconcile_def)
qed

theorem reconcile_ordering_assertion_witness:
  "getState freshHelper \<noteq> RESTORED
   \<and> reconcile freshHelper = Inl (StateAssertion, freshHelper)
   \<and> getState (restoredHelper [(''10.0.0.1/24'', '''', [(''nexthop'', ''1.1.1.1'')])] []) = RESTORED
   \<and> reconcile (restoredHelper [(''10.0.0.1/24'', '''', [(''nexthop'', ''1.1.1.1'')])] [])
       = Inr \<lparr>m_appName = ''fpmsyncd'', m_enabled = True, m_state = RECONCILED,
              m_restorationVector = [], m_refreshMap = [],
              m_syncTable = [SyncClear, SyncDel ''10.0.0.1/24''],
              stateStore = [(''fpmsyncd'', INITIALIZED), (''fpmsyncd'', RESTORED),
                            (''fpmsyncd'', RECONCILED)]\<rparr>"
  using reconcile_ordering_assertion [of freshHelper]
    reconcile_ordering_assertion
      [of "restoredHelper [(''10.0.0.1/24'', '''', [(''nexthop'', ''1.1.1.1'')])] []"]
  by (simp add: freshHelper_def restoredHelper_def reconcile_def getState_def setState_def
      kfvKey_def kfvFieldsValues_def syncTable_del_def Let_def)

text \<open>
  Claim C8. \<open>inProgress\<close> holds exactly when the cached enabled flag is set and the cached
  state is not RECONCILED; \<open>isReconciled\<close> holds exactly when the cached state is
  RECONCILED. Once \<open>isEnabled\<close> has returned false, \<open>inProgress\<close> is false after every
  sequence of \<open>setState\<close>, \<open>runRestoration\<close>, \<open>insertRefreshMap\<close> and \<open>reconcile\<close> calls,
  also in the state in which an assertion ends the sequence.
\<close>

theorem inProgress_law:
  "(inProgress h \<longleftrightarrow> m_enabled h \<and> getState h \<noteq> RECONCILED)
   \<and> (isReconciled h \<longleftrightarrow> getState h = RECONCILED)
   \<and> (fst (isEnabled enabled h0) = False \<longrightarrow>
        (\<forall>cs. case run cs (snd (isEnabled enabled h0)) of
                Inl (f, h1) \<Rightarrow> \<not> inProgress h1
              | Inr h1 \<Rightarrow> \<not> inProgress h1))"
proof -
  have "case run cs (snd (isEnabled enabled h0)) of
          Inl (f, h1) \<Rightarrow> \<not> inProgress h1 | Inr h1 \<Rightarrow> \<not> inProgress h1"
    if "fst (isEnabled enabled h0) = False" for cs
  proof -
    from that have off: "m_enabled (snd (isEnabled enabled h0)) = False"
      by (simp add: isEnabled_def Let_def)
    show ?thesis
    proof (cases "run cs (snd (isEnabled enabled h0))")
      case (Inl e)
      obtain f h1 where e: "e = (f, h1)" by (cases e)
      from Inl e off run_enabled [of cs "snd (isEnabled enabled h0)" h1 f]
      show ?thesis by (simp add: inProgress_def)
    next
      case (Inr h1)
      with off run_enabled [of cs "snd (isEnabled enabled h0)" h1 StateAssertion]
      show ?thesis by (simp add: inProgress_def)
    qed
  qed
  then show ?thesis
    by (simp add: inProgress_def isReconciled_def getState_def)
qed

theorem inProgress_law_witness:
  "fst (isEnabled False freshHelper) = False
   \<and> \<not> inProgress (snd (isEnabled False freshHelper))
   \<and> run [RunRestoration [(''10.0.0.1/24'', '''', [(''nexthop'', ''1.1.1.1'')])],
           InsertRefreshMap (''10.0.0.2/24'', SET_COMMAND, [(''nexthop'', ''1.1.1.2'')])]
          (snd (isEnabled False freshHelper))
       = Inr \<lparr>m_appName = ''fpmsyncd'', m_enabled = False, m_state = RESTORED,
              m_restorationVector = [(''10.0.0.1/24'', '''', [(''nexthop'', ''1.1.1.1'')])],
              m_refreshMap = [(''10.0.0.2/24'',
                               (''10.0.0.2/24'', ''SET'', [(''nexthop'', ''1.1.1.2'')]))],
              m_syncTable = [], stateStore = [(''fpmsyncd'', RESTORED)]\<rparr>
   \<and> \<not> inProgress \<lparr>m_appName = ''fpmsyncd'', m_enabled = False, m_state = RESTORED,
              m_restorationVector = [(''10.0.0.1/24'', '''', [(''nexthop'', ''1.1.1.1'')])],
              m_refreshMap = [(''10.0.0.2/24'',
                               (''10.0.0.2/24'', ''SET'', [(''nexthop'', ''1.1.1.2'')]))],
              m_syncTable = [], stateStore = [(''fpmsyncd'', RESTORED)]\<rparr>"
  using inProgress_law [of "snd (isEnabled False freshHelper)" False freshHelper]
    inProgress_law [of "\<lparr>m_appName = ''fpmsyncd'', m_enabled = False, m_state = RESTORED,
              m_restorationVector = [(''10.0.0.1/24'', '''', [(''nexthop'', ''1.1.1.1'')])],
              m_refreshMap = [(''10.0.0.2/24'',
                               (''10.0.0.2/24'', ''SET'', [(''nexthop'', ''1.1.1.2'')]))],
              m_syncTable = [], stateStore = [(''fpmsyncd'', RESTORED)]\<rparr>" False freshHelper]
  by (simp add: freshHelper_def isEnabled_def runRestoration_def insertRefreshMap_def
      setState_def getState_def kfvKey_def SET_COMMAND_def Let_def)

text \<open>
  Claim C10. When the configuration check answers false, \<open>isEnabled\<close> returns false and only
  caches the flag: no state is written, locally or to the status store, the sink is not
  cleared, and the snapshot and the refresh map stay as they are.
\<close>

theorem isEnabled_disabled_frame:
  "isEnabled False h = (False, h\<lparr>m_enabled := False\<rparr>)
   \<and> m_enabled (snd (isEnabled False h)) = False
   \<and> m_state (snd (isEnabled False h)) = m_state h
   \<and> stateStore (snd (isEnabled False h)) = stateStore h
   \<and> m_syncTable (snd (isEnabled False h)) = m_syncTable h
   \<and> m_restorationVector (snd (isEnabled False h)) = m_restorationVector h
   \<and> m_refreshMap (snd (isEnabled False h)) = m_refreshMap h"
  by (simp add: isEnabled_def)

text \<open>
  Claim C1, as stated, fails where the comparator fails its field assertion: a call in
  state RESTORED then aborts, the state stays RESTORED and nothing is emptied. Here the
  refreshed record carries a field that the snapshot record lacks.
\<close>

theorem reconcile_field_fault_counterexample:
  "getState (restoredHelper [(''K'', '''', [(''f'', ''a'')])]
               [(''K'', (''K'', ''SET'', [(''g'', ''a'')]))]) = RESTORED
   \<and> reconcile (restoredHelper [(''K'', '''', [(''f'', ''a'')])]
                  [(''K'', (''K'', ''SET'', [(''g'', ''a'')]))])
       = Inl (FieldAssertion,
              \<lparr>m_appName = ''fpmsyncd'', m_enabled = True, m_state = RESTORED,
               m_restorationVector = [(''K'', '''', [(''f'', ''a'')])],
               m_refreshMap = [(''K'', (''K'', ''SET'', [(''g'', ''a'')]))],
               m_syncTable = [SyncClear],
               stateStore = [(''fpmsyncd'', INITIALIZED), (''fpmsyncd'', RESTORED)]\<rparr>)"
  by (simp add: restoredHelper_def reconcile_def getState_def kfvKey_def kfvOp_def
      kfvFieldsValues_def fvField_def DEL_COMMAND_def Let_def)

text \<open>
  Claim C1, amended. A call of \<open>reconcile\<close> in state RESTORED takes the records of the
  snapshot in their order: for a key that the refresh map lacks or holds with operation
  DELETE the sink receives a del, for a key whose field-values differ under the comparator
  a set with the refreshed key and field-values, and nothing for a key whose field-values
  are equivalent; the key is then taken out of the refresh map. When no comparison fails
  the field assertion, the sink then receives one set for every entry left in the refresh
  map, the refresh map and the snapshot end empty and the state is RECONCILED, written to
  the status store as well. When a comparison fails the field assertion, the call aborts at
  that record: the sink has received the calls for the records before it, the state is
  still RESTORED and the status store untouched, the snapshot is as it was, and the refresh
  map has lost the keys of the records before it only; neither is empty.
\<close>

theorem reconcile_two_passes:
  assumes "getState h = RESTORED"
  shows "(specProcessed (map_of (m_refreshMap h)) (m_restorationVector h)
            = m_restorationVector h \<longrightarrow>
          (\<exists>new.
             mset new = image_mset setCall
               (filter_mset (\<lambda>e. fst e \<notin> kfvKey ` set (m_restorationVector h))
                  (mset (m_refreshMap h)))
             \<and> reconcile h =
                 Inr (h\<lparr>m_syncTable := m_syncTable h
                          @ specSnapshotPass (map_of (m_refreshMap h)) (m_restorationVector h)
                          @ new,
                       m_refreshMap := [], m_restorationVector := [],
                       stateStore := stateStore h @ [(m_appName h, RECONCILED)],
                       m_state := RECONCILED\<rparr>)))
     \<and> (specProcessed (map_of (m_refreshMap h)) (m_restorationVector h)
            \<noteq> m_restorationVector h \<longrightarrow>
          (\<exists>h1. reconcile h = Inl (FieldAssertion, h1)
             \<and> getState h1 = RESTORED
             \<and> stateStore h1 = stateStore h
             \<and> m_restorationVector h1 = m_restorationVector h
             \<and> m_restorationVector h1 \<noteq> []
             \<and> m_refreshMap h1 =
                 filter (\<lambda>e. fst e \<notin> kfvKey ` set
                           (specProcessed (map_of (m_refreshMap h)) (m_restorationVector h)))
                   (m_refreshMap h)
             \<and> m_refreshMap h1 \<noteq> []
             \<and> m_syncTable h1 =
                 m_syncTable h @ specSnapshotPass (map_of (m_refreshMap h))
                   (specProcessed (map_of (m_refreshMap h)) (m_restorationVector h))))"
proof (cases "specProcessed (map_of (m_refreshMap h)) (m_restorationVector h)
    = m_restorationVector h")
  case True
  let ?new = "map setCall (filter (\<lambda>e. fst e \<notin> kfvKey ` set (m_restorationVector h))
                (m_refreshMap h))"
  have "mset ?new = image_mset setCall
       (filter_mset (\<lambda>e. fst e \<notin> kfvKey ` set (m_restorationVector h))
          (mset (m_refreshMap h)))"
    by simp
  moreover from reconcile_exact [OF assms] True
  have "reconcile h =
     Inr (h\<lparr>m_syncTable := m_syncTable h
              @ specSnapshotPass (map_of (m_refreshMap h)) (m_restorationVector h) @ ?new,
           m_refreshMap := [], m_restorationVector := [],
           stateStore := stateStore h @ [(m_appName h, RECONCILED)],
           m_state := RECONCILED\<rparr>)"
    by simp
  ultimately show ?thesis using True by blast
next
  case False
  then have ne: "m_restorationVector h \<noteq> []" by auto
  from False have left: "filter (\<lambda>e. fst e \<notin> kfvKey ` set
        (specProcessed (map_of (m_refreshMap h)) (m_restorationVector h)))
      (m_refreshMap h) \<noteq> []"
    by (rule specProcessed_left)
  from reconcile_exact [OF assms] False ne left assms show ?thesis
    by (simp add: getState_def)
qed

theorem reconcile_two_passes_witness:
  "getState (restoredHelper [(''K'', '''', [(''f'', ''a'')])]
      [(''K'', (''K'', ''SET'', [(''f'', ''a'')])),
       (''K2'', (''K2'', ''SET'', [(''g'', ''x'')]))]) = RESTORED
   \<and> specProcessed
       (map_of [(''K'', (''K'', ''SET'', [(''f'', ''a'')])),
                (''K2'', (''K2'', ''SET'', [(''g'', ''x'')]))])
       [(''K'', '''', [(''f'', ''a'')])]
     = [(''K'', '''', [(''f'', ''a'')])]
   \<and> reconcile (restoredHelper [(''K'', '''', [(''f'', ''a'')])]
      [(''K'', (''K'', ''SET'', [(''f'', ''a'')])),
       (''K2'', (''K2'', ''SET'', [(''g'', ''x'')]))])
     = Inr \<lparr>m_appName = ''fpmsyncd'', m_enabled = True, m_state = RECONCILED,
            m_restorationVector = [], m_refreshMap = [],
            m_syncTable = [SyncClear, SyncSet ''K2'' [(''g'', ''x'')]],
            stateStore = [(''fpmsyncd'', INITIALIZED), (''fpmsyncd'', RESTORED),
                          (''fpmsyncd'', RECONCILED)]\<rparr>
   \<and> getState (restoredHelper
        [(''K1'', '''', [(''f'', ''a'')]), (''K2'', '''', [(''f'', ''a'')])]
        [(''K2'', (''K2'', ''SET'', [(''g'', ''a'')]))]) = RESTORED
   \<and> specProcessed (map_of [(''K2'', (''K2'', ''SET'', [(''g'', ''a'')]))])
        [(''K1'', '''', [(''f'', ''a'')]), (''K2'', '''', [(''f'', ''a'')])]
     \<noteq> [(''K1'', '''', [(''f'', ''a'')]), (''K2'', '''', [(''f'', ''a'')])]
   \<and> reconcile (restoredHelper
        [(''K1'', '''', [(''f'', ''a'')]), (''K2'', '''', [(''f'', ''a'')])]
        [(''K2'', (''K2'', ''SET'', [(''g'', ''a'')]))])
     = Inl (FieldAssertion,
        \<lparr>m_appName = ''fpmsyncd'', m_enabled = True, m_state = RESTORED,
         m_restorationVector =
           [(''K1'', '''', [(''f'', ''a'')]), (''K2'', '''', [(''f'', ''a'')])],
         m_refreshMap = [(''K2'', (''K2'', ''SET'', [(''g'', ''a'')]))],
         m_syncTable = [SyncClear, SyncDel ''K1''],
         stateStore = [(''fpmsyncd'', INITIALIZED), (''fpmsyncd'', RESTORED)]\<rparr>)"
proof -
  let ?h = "restoredHelper [(''K'', '''', [(''f'', ''a'')])]
      [(''K'', (''K'', ''SET'', [(''f'', ''a'')])),
       (''K2'', (''K2'', ''SET'', [(''g'', ''x'')]))]"
  let ?g = "restoredHelper
        [(''K1'', '''', [(''f'', ''a'')]), (''K2'', '''', [(''f'', ''a'')])]
        [(''K2'', (''K2'', ''SET'', [(''g'', ''a'')]))]"
  have one: "\<not> compareOneFV ''a'' ''a''"
    by code_simp
  have sth: "getState ?h = RESTORED" and stg: "getState ?g = RESTORED"
    by (simp_all add: restoredHelper_def getState_def)
  have ph: "specProcessed (map_of (m_refreshMap ?h)) (m_restorationVector ?h)
      = m_restorationVector ?h"
    by (simp add: restoredHelper_def specRecordFaults_def kfvKey_def kfvOp_def
        kfvFieldsValues_def fvField_def fvValue_def DEL_COMMAND_def one)
  have pg: "specProcessed (map_of (m_refreshMap ?g)) (m_restorationVector ?g)
      = [(''K1'', '''', [(''f'', ''a'')])]"
    by (simp add: restoredHelper_def specRecordFaults_def kfvKey_def kfvOp_def
        kfvFieldsValues_def fvField_def fvValue_def DEL_COMMAND_def)
  then have pg': "specProcessed (map_of (m_refreshMap ?g)) (m_restorationVector ?g)
      \<noteq> m_restorationVector ?g"
    by (simp add: restoredHelper_def)
  from reconcile_two_passes [OF sth] ph obtain new where
    new: "mset new = image_mset setCall
       (filter_mset (\<lambda>e. fst e \<notin> kfvKey ` set (m_restorationVector ?h))
          (mset (m_refreshMap ?h)))"
    and r: "reconcile ?h =
         Inr (?h\<lparr>m_syncTable := m_syncTable ?h
                  @ specSnapshotPass (map_of (m_refreshMap ?h)) (m_restorationVector ?h)
                  @ new,
               m_refreshMap := [], m_restorationVector := [],
               stateStore := stateStore ?h @ [(m_appName ?h, RECONCILED)],
               m_state := RECONCILED\<rparr>)"
    by blast
  from new have "mset new = {#SyncSet ''K2'' [(''g'', ''x'')]#}"
    by (simp add: restoredHelper_def kfvKey_def setCall_def kfvFieldsValues_def)
  then have "new = [SyncSet ''K2'' [(''g'', ''x'')]]"
    by simp
  with r have rh: "reconcile ?h
     = Inr \<lparr>m_appName = ''fpmsyncd'', m_enabled = True, m_state = RECONCILED,
            m_restorationVector = [], m_refreshMap = [],
            m_syncTable = [SyncClear, SyncSet ''K2'' [(''g'', ''x'')]],
            stateStore = [(''fpmsyncd'', INITIALIZED), (''fpmsyncd'', RESTORED),
                          (''fpmsyncd'', RECONCILED)]\<rparr>"
    by (simp add: restoredHelper_def kfvKey_def kfvOp_def kfvFieldsValues_def
        specRecordCalls_def fvField_def fvValue_def DEL_COMMAND_def one)
  from reconcile_two_passes [OF stg] pg' obtain g1 where
    g1: "reconcile ?g = Inl (FieldAssertion, g1)"
    and g1s: "m_syncTable g1 =
           m_syncTable ?g @ specSnapshotPass (map_of (m_refreshMap ?g))
             (specProcessed (map_of (m_refreshMap ?g)) (m_restorationVector ?g))"
    by blast
  have rg: "reconcile ?g
     = Inl (FieldAssertion,
        \<lparr>m_appName = ''fpmsyncd'', m_enabled = True, m_state = RESTORED,
         m_restorationVector =
           [(''K1'', '''', [(''f'', ''a'')]), (''K2'', '''', [(''f'', ''a'')])],
         m_refreshMap = [(''K2'', (''K2'', ''SET'', [(''g'', ''a'')]))],
         m_syncTable = [SyncClear, SyncDel ''K1''],
         stateStore = [(''fpmsyncd'', INITIALIZED), (''fpmsyncd'', RESTORED)]\<rparr>)"
    by (simp add: reconcile_def restoredHelper_def getState_def syncTable_del_def kfvKey_def
        kfvOp_def kfvFieldsValues_def fvField_def DEL_COMMAND_def Let_def)
  from sth stg ph pg' rh rg g1 g1s show ?thesis
    by (simp add: restoredHelper_def)
qed

text \<open>
  Claim C9. When the refresh map holds exactly one record for every key of the snapshot
  and no other, none of them a DELETE and each comparing equal to the snapshot record of
  its key, \<open>reconcile\<close> in state RESTORED makes no call on the sink. The snapshot holds one
  record for a key.
\<close>

theorem reconcile_idempotent:
  assumes "getState h = RESTORED"
    and "sameAsSnapshot (m_restorationVector h) (m_refreshMap h)"
  shows "reconcileCalls h = []
     \<and> reconcile h =
         Inr (h\<lparr>m_refreshMap := [], m_restorationVector := [],
               stateStore := stateStore h @ [(m_appName h, RECONCILED)],
               m_state := RECONCILED\<rparr>)"
proof -
  let ?rs = "m_restorationVector h" and ?al = "m_refreshMap h"
  from assms(2) have d: "distinct (map kfvKey ?rs)"
    and keys: "fst ` set ?al = kfvKey ` set ?rs"
    and eq: "\<And>R. R \<in> set ?rs \<Longrightarrow>
      \<exists>r. map_of ?al (kfvKey R) = Some r \<and> kfvOp r \<noteq> DEL_COMMAND
        \<and> compareAllFV (kfvFieldsValues R) (kfvFieldsValues r) = Inr False"
    by (auto simp: sameAsSnapshot_def split: option.splits)
  have nf: "noFieldFault ?rs ?al"
    unfolding noFieldFault_def
  proof
    fix R assume "R \<in> set ?rs"
    from eq [OF this] show "case map_of ?al (kfvKey R) of None \<Rightarrow> True
      | Some r \<Rightarrow> kfvOp r = DEL_COMMAND
          \<or> compareAllFV (kfvFieldsValues R) (kfvFieldsValues r) \<noteq> Inl FieldAssertion"
      by auto
  qed
  have "specRecordCalls (map_of ?al) R = []" if "R \<in> set ?rs" for R
    using eq [OF that] by (auto simp: specRecordCalls_def)
  then have pass1: "specSnapshotPass (map_of ?al) ?rs = []"
    by (simp add: specSnapshotPass_distinct [OF d])
  have pass2: "filter (\<lambda>e. fst e \<notin> kfvKey ` set ?rs) ?al = []"
    using keys by (auto simp: filter_empty_conv)
  from reconcile_spec [OF assms(1) nf] reconcileCalls_spec [OF assms(1) nf] pass1 pass2
  show ?thesis by simp
qed

theorem reconcile_idempotent_witness:
  "getState (restoredHelper [(''K'', '''', [(''f'', ''a,b'')])]
      [(''K'', (''K'', ''SET'', [(''f'', ''b,a'')]))]) = RESTORED
   \<and> sameAsSnapshot [(''K'', '''', [(''f'', ''a,b'')])]
      [(''K'', (''K'', ''SET'', [(''f'', ''b,a'')]))]
   \<and> reconcileCalls (restoredHelper [(''K'', '''', [(''f'', ''a,b'')])]
      [(''K'', (''K'', ''SET'', [(''f'', ''b,a'')]))]) = []"
proof -
  let ?h = "restoredHelper [(''K'', '''', [(''f'', ''a,b'')])]
      [(''K'', (''K'', ''SET'', [(''f'', ''b,a'')]))]"
  have st: "getState ?h = RESTORED"
    by (simp add: restoredHelper_def getState_def)
  have one: "\<not> compareOneFV ''a,b'' ''b,a''"
    by code_simp
  have same: "sameAsSnapshot (m_restorationVector ?h) (m_refreshMap ?h)"
    by (simp add: restoredHelper_def sameAsSnapshot_def kfvKey_def kfvOp_def
        kfvFieldsValues_def fvField_def fvValue_def DEL_COMMAND_def one)
  from reconcile_idempotent [OF st same] st same show ?thesis
    by (simp add: restoredHelper_def)
qed

text \<open>
  Claim C5 does not hold of the code. A field of the restored record that the refreshed
  record lacks fails no assertion: \<open>compareAllFV\<close> walks through the refreshed fields
  only, reports no change, and \<open>reconcile\<close> makes no call on the sink. The other direction
  fails the assertion.
\<close>

theorem compareAllFV_restored_only_field:
  "compareAllFV [(''nexthop'', ''1.1.1.1''), (''ifname'', ''eth0'')]
                [(''nexthop'', ''1.1.1.1'')] = Inr False
   \<and> compareAllFV [(''nexthop'', ''1.1.1.1'')]
                  [(''nexthop'', ''1.1.1.1''), (''ifname'', ''eth0'')] = Inl FieldAssertion
   \<and> reconcile (restoredHelper
        [(''10.0.0.1/24'', '''', [(''nexthop'', ''1.1.1.1''), (''ifname'', ''eth0'')])]
        [(''10.0.0.1/24'', (''10.0.0.1/24'', ''SET'', [(''nexthop'', ''1.1.1.1'')]))])
     = Inr \<lparr>m_appName = ''fpmsyncd'', m_enabled = True, m_state = RECONCILED,
            m_restorationVector = [], m_refreshMap = [],
            m_syncTable = [SyncClear],
            stateStore = [(''fpmsyncd'', INITIALIZED), (''fpmsyncd'', RESTORED),
                          (''fpmsyncd'', RECONCILED)]\<rparr>"
proof -
  have one: "\<not> compareOneFV ''1.1.1.1'' ''1.1.1.1''"
    by code_simp
  show ?thesis
    by (simp add: restoredHelper_def reconcile_def getState_def setState_def kfvKey_def
        kfvOp_def kfvFieldsValues_def fvField_def fvValue_def DEL_COMMAND_def Let_def one)
qed

text \<open>
  Claim C4 does not hold of the code. A refreshed record with operation DELETE whose key
  is not in the snapshot is left in the refresh map by the first pass, and the second pass
  issues a set for it.
\<close>

theorem reconcile_sets_deleted_new_key:
  "run [RunRestoration [(''10.0.0.1/24'', '''', [(''nexthop'', ''1.1.1.1'')])],
        InsertRefreshMap (''10.0.0.1/24'', SET_COMMAND, [(''nexthop'', ''1.1.1.1'')]),
        InsertRefreshMap (''10.0.0.2/24'', DEL_COMMAND, []),
        Reconcile]
       (snd (isEnabled True freshHelper))
     = Inr \<lparr>m_appName = ''fpmsyncd'', m_enabled = True, m_state = RECONCILED,
            m_restorationVector = [], m_refreshMap = [],
            m_syncTable = [SyncClear, SyncSet ''10.0.0.2/24'' []],
            stateStore = [(''fpmsyncd'', INITIALIZED), (''fpmsyncd'', RESTORED),
                          (''fpmsyncd'', RECONCILED)]\<rparr>"
proof -
  have one: "\<not> compareOneFV ''1.1.1.1'' ''1.1.1.1''"
    by code_simp
  show ?thesis
    by (simp add: freshHelper_def isEnabled_def runRestoration_def insertRefreshMap_def
        reconcile_def getState_def setState_def syncTable_clear_def syncTable_set_def
        kfvKey_def kfvOp_def kfvFieldsValues_def fvField_def fvValue_def DEL_COMMAND_def
        SET_COMMAND_def Let_def one)
qed

text \<open>
  Claim C2, as stated, fails where the comparator fails its field assertion: the call
  aborts with a part of the script issued. Here the first route is deleted, the comparison
  of the second aborts the call, and the third, which the refresh map lacks and whose
  decision is DELETE, gets no call.
\<close>

theorem reconcile_partial_script_counterexample:
  "getState (restoredHelper
       [(''10.0.1.0/24'', '''', [(''nexthop'', ''10.1.1.1'')]),
        (''10.0.2.0/24'', '''', [(''nexthop'', ''10.1.1.1'')]),
        (''10.0.3.0/24'', '''', [(''nexthop'', ''10.1.1.1'')])]
       [(''10.0.2.0/24'', (''10.0.2.0/24'', ''SET'', [(''ifname'', ''Ethernet1'')]))])
     = RESTORED
   \<and> reconcile (restoredHelper
       [(''10.0.1.0/24'', '''', [(''nexthop'', ''10.1.1.1'')]),
        (''10.0.2.0/24'', '''', [(''nexthop'', ''10.1.1.1'')]),
        (''10.0.3.0/24'', '''', [(''nexthop'', ''10.1.1.1'')])]
       [(''10.0.2.0/24'', (''10.0.2.0/24'', ''SET'', [(''ifname'', ''Ethernet1'')]))])
     = Inl (FieldAssertion,
        \<lparr>m_appName = ''fpmsyncd'', m_enabled = True, m_state = RESTORED,
         m_restorationVector =
           [(''10.0.1.0/24'', '''', [(''nexthop'', ''10.1.1.1'')]),
            (''10.0.2.0/24'', '''', [(''nexthop'', ''10.1.1.1'')]),
            (''10.0.3.0/24'', '''', [(''nexthop'', ''10.1.1.1'')])],
         m_refreshMap =
           [(''10.0.2.0/24'', (''10.0.2.0/24'', ''SET'', [(''ifname'', ''Ethernet1'')]))],
         m_syncTable = [SyncClear, SyncDel ''10.0.1.0/24''],
         stateStore = [(''fpmsyncd'', INITIALIZED), (''fpmsyncd'', RESTORED)]\<rparr>)
   \<and> reconcileCalls (restoredHelper
       [(''10.0.1.0/24'', '''', [(''nexthop'', ''10.1.1.1'')]),
        (''10.0.2.0/24'', '''', [(''nexthop'', ''10.1.1.1'')]),
        (''10.0.3.0/24'', '''', [(''nexthop'', ''10.1.1.1'')])]
       [(''10.0.2.0/24'', (''10.0.2.0/24'', ''SET'', [(''ifname'', ''Ethernet1'')]))])
     = [SyncDel ''10.0.1.0/24'']
   \<and> specDecision
       [(''10.0.1.0/24'', '''', [(''nexthop'', ''10.1.1.1'')]),
        (''10.0.2.0/24'', '''', [(''nexthop'', ''10.1.1.1'')]),
        (''10.0.3.0/24'', '''', [(''nexthop'', ''10.1.1.1'')])]
       (map_of [(''10.0.2.0/24'', (''10.0.2.0/24'', ''SET'', [(''ifname'', ''Ethernet1'')]))])
       ''10.0.3.0/24'' = DELETE"
  by (simp add: reconcileCalls_def reconcile_def restoredHelper_def getState_def
      syncTable_del_def specDecision_def kfvKey_def kfvOp_def kfvFieldsValues_def
      fvField_def DEL_COMMAND_def Let_def)

text \<open>
  Claim C2, amended. Let the snapshot hold one record for a key and one value for a field,
  the refresh map be keyed by the keys of its records, every refreshed DELETE record have
  its key in the snapshot, and no refreshed record be a proper part of the snapshot record
  that it refreshes. Then the calls of \<open>reconcile\<close> in state RESTORED are decisions of the
  edit script, each carried out once. When no comparison fails the field assertion the
  call returns and every key is decided: a del exactly for the keys whose decision is
  DELETE, a set with the refreshed field-values exactly for the keys whose decision is SET,
  and no call for the other keys. When a comparison fails the field assertion the call
  aborts in state RESTORED, with exactly the decisions for the keys of the records before
  the failing one carried out. In both cases there are no two calls for one key and the
  calls are the same for the same snapshot and refresh map.
\<close>

theorem reconcile_edit_script:
  assumes st: "getState h = RESTORED"
    and ok: "snapshotOk (m_restorationVector h)"
    and rok: "refreshMapOk (m_refreshMap h)"
    and dels: "deletesRestored (m_restorationVector h) (m_refreshMap h)"
    and np: "noProperPart (m_restorationVector h) (m_refreshMap h)"
  shows "(specProcessed (map_of (m_refreshMap h)) (m_restorationVector h)
            = m_restorationVector h \<longrightarrow>
          (\<exists>h1. reconcile h = Inr h1 \<and> isReconciled h1)
          \<and> (\<forall>K. SyncDel K \<in> set (reconcileCalls h) \<longleftrightarrow>
                 specDecision (m_restorationVector h) (map_of (m_refreshMap h)) K = DELETE)
          \<and> (\<forall>K fv. SyncSet K fv \<in> set (reconcileCalls h) \<longleftrightarrow>
                 specDecision (m_restorationVector h) (map_of (m_refreshMap h)) K = SET fv))
     \<and> (specProcessed (map_of (m_refreshMap h)) (m_restorationVector h)
            \<noteq> m_restorationVector h \<longrightarrow>
          (\<exists>h1. reconcile h = Inl (FieldAssertion, h1) \<and> getState h1 = RESTORED)
          \<and> (\<forall>K. SyncDel K \<in> set (reconcileCalls h) \<longleftrightarrow>
                 K \<in> kfvKey ` set (specProcessed (map_of (m_refreshMap h))
                                      (m_restorationVector h))
                 \<and> specDecision (m_restorationVector h) (map_of (m_refreshMap h)) K
                     = DELETE)
          \<and> (\<forall>K fv. SyncSet K fv \<in> set (reconcileCalls h) \<longleftrightarrow>
                 K \<in> kfvKey ` set (specProcessed (map_of (m_refreshMap h))
                                      (m_restorationVector h))
                 \<and> specDecision (m_restorationVector h) (map_of (m_refreshMap h)) K
                     = SET fv))
     \<and> SyncClear \<notin> set (reconcileCalls h)
     \<and> distinct (map callKey (reconcileCalls h))
     \<and> (\<forall>h2. getState h2 = RESTORED
            \<and> m_restorationVector h2 = m_restorationVector h
            \<and> m_refreshMap h2 = m_refreshMap h
          \<longrightarrow> reconcileCalls h2 = reconcileCalls h)"
proof -
  let ?rs = "m_restorationVector h" and ?al = "m_refreshMap h"
  let ?done = "specProcessed (map_of ?al) ?rs"
  let ?dec = "specDecision ?rs (map_of ?al)"
  let ?ks = "decidedKeys ?rs ?al"
  have calls: "reconcileCalls h = concat (map (\<lambda>K. decisionCall K (?dec K)) ?ks)"
    using assms by (rule reconcileCalls_decisions)
  have dk: "distinct ?ks"
    using ok rok by (rule decidedKeys_distinct)
  have del: "SyncDel K \<in> set (reconcileCalls h) \<longleftrightarrow> K \<in> set ?ks \<and> ?dec K = DELETE" for K
    unfolding calls by (rule decisionCalls_del)
  have set: "SyncSet K fv \<in> set (reconcileCalls h) \<longleftrightarrow> K \<in> set ?ks \<and> ?dec K = SET fv"
    for K fv
    unfolding calls by (rule decisionCalls_set)
  have clear: "SyncClear \<notin> set (reconcileCalls h)"
    by (simp only: calls decisionCalls_clear not_False_eq_True)
  have dist: "distinct (map callKey (reconcileCalls h))"
    unfolding calls using dk by (rule decisionCalls_distinct)
  have det: "reconcileCalls h2 = reconcileCalls h"
    if "getState h2 = RESTORED \<and> m_restorationVector h2 = ?rs \<and> m_refreshMap h2 = ?al"
    for h2
    using that reconcileCalls_exact [of h2] reconcileCalls_exact [OF st] by simp
  have complete: "(\<exists>h1. reconcile h = Inr h1 \<and> isReconciled h1)
      \<and> (\<forall>K. SyncDel K \<in> set (reconcileCalls h) \<longleftrightarrow> ?dec K = DELETE)
      \<and> (\<forall>K fv. SyncSet K fv \<in> set (reconcileCalls h) \<longleftrightarrow> ?dec K = SET fv)"
    if c: "?done = ?rs"
  proof -
    from c have ks: "?ks = decisionKeys ?rs ?al" by (simp add: decidedKeys_def)
    have other: "?dec K = NOOP" if "K \<notin> set ?ks" for K
      using that ks specDecision_other [of K ?rs ?al] by simp
    have "\<exists>h1. reconcile h = Inr h1 \<and> isReconciled h1"
      using c by (simp add: reconcile_exact [OF st] isReconciled_def)
    moreover have "SyncDel K \<in> set (reconcileCalls h) \<longleftrightarrow> ?dec K = DELETE" for K
      using del [of K] other [of K] by auto
    moreover have "SyncSet K fv \<in> set (reconcileCalls h) \<longleftrightarrow> ?dec K = SET fv" for K fv
      using set [of K fv] other [of K] by auto
    ultimately show ?thesis by blast
  qed
  have abort: "(\<exists>h1. reconcile h = Inl (FieldAssertion, h1) \<and> getState h1 = RESTORED)
      \<and> (\<forall>K. SyncDel K \<in> set (reconcileCalls h) \<longleftrightarrow>
             K \<in> kfvKey ` set ?done \<and> ?dec K = DELETE)
      \<and> (\<forall>K fv. SyncSet K fv \<in> set (reconcileCalls h) \<longleftrightarrow>
             K \<in> kfvKey ` set ?done \<and> ?dec K = SET fv)"
    if c: "?done \<noteq> ?rs"
  proof -
    from c have ks: "set ?ks = kfvKey ` set ?done" by (simp add: decidedKeys_def)
    have "\<exists>h1. reconcile h = Inl (FieldAssertion, h1) \<and> getState h1 = RESTORED"
      using c st by (simp add: reconcile_exact [OF st] getState_def)
    with del set ks show ?thesis by simp
  qed
  from complete abort clear dist det show ?thesis by blast
qed

theorem reconcile_edit_script_witness:
  "getState (restoredHelper exampleSnapshot exampleRefresh) = RESTORED
   \<and> snapshotOk exampleSnapshot
   \<and> refreshMapOk exampleRefresh
   \<and> deletesRestored exampleSnapshot exampleRefresh
   \<and> noProperPart exampleSnapshot exampleRefresh
   \<and> specProcessed (map_of exampleRefresh) exampleSnapshot = exampleSnapshot
   \<and> specDecision exampleSnapshot (map_of exampleRefresh) ''10.0.1.0/24'' = DELETE
   \<and> SyncDel ''10.0.1.0/24''
       \<in> set (reconcileCalls (restoredHelper exampleSnapshot exampleRefresh))
   \<and> specDecision exampleSnapshot (map_of exampleRefresh) ''10.0.3.0/24'' = NOOP
   \<and> reconcileCalls (restoredHelper exampleSnapshot exampleRefresh)
       = [SyncDel ''10.0.1.0/24'',
          SyncSet ''10.0.2.0/24'' [(''nexthop'', ''10.1.1.2''), (''ifname'', ''Ethernet2'')],
          SyncDel ''10.0.4.0/24'',
          SyncSet ''10.0.5.0/24'' [(''nexthop'', ''10.1.1.1''), (''ifname'', ''Ethernet1'')]]
   \<and> getState (restoredHelper abortSnapshot abortRefresh) = RESTORED
   \<and> snapshotOk abortSnapshot
   \<and> refreshMapOk abortRefresh
   \<and> deletesRestored abortSnapshot abortRefresh
   \<and> noProperPart abortSnapshot abortRefresh
   \<and> specProcessed (map_of abortRefresh) abortSnapshot \<noteq> abortSnapshot
   \<and> specProcessed (map_of abortRefresh) abortSnapshot
       = [(''10.0.1.0/24'', '''', [(''nexthop'', ''10.1.1.1'')]),
          (''10.0.2.0/24'', '''', [(''nexthop'', ''10.1.1.1'')])]
   \<and> specDecision abortSnapshot (map_of abortRefresh) ''10.0.2.0/24'' = DELETE
   \<and> SyncDel ''10.0.2.0/24''
       \<in> set (reconcileCalls (restoredHelper abortSnapshot abortRefresh))
   \<and> specDecision abortSnapshot (map_of abortRefresh) ''10.0.4.0/24'' = DELETE
   \<and> SyncDel ''10.0.4.0/24''
       \<notin> set (reconcileCalls (restoredHelper abortSnapshot abortRefresh))
   \<and> reconcileCalls (restoredHelper abortSnapshot abortRefresh)
       = [SyncSet ''10.0.1.0/24'' [(''nexthop'', ''10.1.1.2''), (''ifname'', ''Ethernet2'')],
          SyncDel ''10.0.2.0/24'']"
proof -
  let ?h = "restoredHelper exampleSnapshot exampleRefresh"
  let ?g = "restoredHelper abortSnapshot abortRefresh"
  have c1: "compareOneFV ''10.1.1.1'' ''10.1.1.2''"
    by code_simp
  have c2: "\<not> compareOneFV ''10.1.1.1,10.1.1.2'' ''10.1.1.2,10.1.1.1''"
    by code_simp
  have c3: "\<not> compareOneFV ''Ethernet1,Ethernet2'' ''Ethernet2,Ethernet1''"
    by code_simp
  have c4: "compareOneFV ''Ethernet1'' ''Ethernet2''"
    by code_simp
  have sth: "getState ?h = RESTORED" and stg: "getState ?g = RESTORED"
    by (simp_all add: restoredHelper_def getState_def)
  have okh: "snapshotOk (m_restorationVector ?h)"
    by (simp add: restoredHelper_def exampleSnapshot_def snapshotOk_def kfvKey_def
        kfvFieldsValues_def fvField_def)
  have okg: "snapshotOk (m_restorationVector ?g)"
    by (simp add: restoredHelper_def abortSnapshot_def snapshotOk_def kfvKey_def
        kfvFieldsValues_def fvField_def)
  have rokh: "refreshMapOk (m_refreshMap ?h)"
    by (simp add: restoredHelper_def exampleRefresh_def refreshMapOk_def kfvKey_def)
  have rokg: "refreshMapOk (m_refreshMap ?g)"
    by (simp add: restoredHelper_def abortRefresh_def refreshMapOk_def kfvKey_def)
  have delh: "deletesRestored (m_restorationVector ?h) (m_refreshMap ?h)"
    by (simp add: restoredHelper_def exampleSnapshot_def exampleRefresh_def
        deletesRestored_def kfvKey_def kfvOp_def DEL_COMMAND_def)
  have delg: "deletesRestored (m_restorationVector ?g) (m_refreshMap ?g)"
    by (simp add: restoredHelper_def abortSnapshot_def abortRefresh_def
        deletesRestored_def kfvKey_def kfvOp_def DEL_COMMAND_def)
  have nph: "noProperPart (m_restorationVector ?h) (m_refreshMap ?h)"
    by (simp add: restoredHelper_def exampleSnapshot_def exampleRefresh_def noProperPart_def
        properPart_def kfvKey_def kfvOp_def kfvFieldsValues_def fvField_def DEL_COMMAND_def)
  have npg: "noProperPart (m_restorationVector ?g) (m_refreshMap ?g)"
    by (simp add: restoredHelper_def abortSnapshot_def abortRefresh_def noProperPart_def
        properPart_def kfvKey_def kfvOp_def kfvFieldsValues_def fvField_def DEL_COMMAND_def)
  have ph: "specProcessed (map_of (m_refreshMap ?h)) (m_restorationVector ?h)
      = m_restorationVector ?h"
    by (simp add: restoredHelper_def exampleSnapshot_def exampleRefresh_def
        specRecordFaults_def kfvKey_def kfvOp_def kfvFieldsValues_def fvField_def
        fvValue_def DEL_COMMAND_def c1 c2 c3 c4)
  have pg: "specProcessed (map_of (m_refreshMap ?g)) (m_restorationVector ?g)
       = [(''10.0.1.0/24'', '''', [(''nexthop'', ''10.1.1.1'')]),
          (''10.0.2.0/24'', '''', [(''nexthop'', ''10.1.1.1'')])]"
    by (simp add: restoredHelper_def abortSnapshot_def abortRefresh_def
        specRecordFaults_def kfvKey_def kfvOp_def kfvFieldsValues_def fvField_def
        fvValue_def DEL_COMMAND_def c1)
  then have pg': "specProcessed (map_of (m_refreshMap ?g)) (m_restorationVector ?g)
      \<noteq> m_restorationVector ?g"
    by (simp add: restoredHelper_def abortSnapshot_def)
  have dh1: "specDecision (m_restorationVector ?h) (map_of (m_refreshMap ?h)) ''10.0.1.0/24''
      = DELETE"
    by (simp add: restoredHelper_def exampleSnapshot_def exampleRefresh_def specDecision_def
        kfvKey_def)
  have dh3: "specDecision (m_restorationVector ?h) (map_of (m_refreshMap ?h)) ''10.0.3.0/24''
      = NOOP"
    by (simp add: restoredHelper_def exampleSnapshot_def exampleRefresh_def specDecision_def
        specRecordChanged_def kfvKey_def kfvOp_def kfvFieldsValues_def fvField_def
        fvValue_def DEL_COMMAND_def c2 c3)
  have dg2: "specDecision (m_restorationVector ?g) (map_of (m_refreshMap ?g)) ''10.0.2.0/24''
      = DELETE"
    by (simp add: restoredHelper_def abortSnapshot_def abortRefresh_def specDecision_def
        kfvKey_def)
  have dg4: "specDecision (m_restorationVector ?g) (map_of (m_refreshMap ?g)) ''10.0.4.0/24''
      = DELETE"
    by (simp add: restoredHelper_def abortSnapshot_def abortRefresh_def specDecision_def
        kfvKey_def)
  have callsh: "reconcileCalls ?h
       = [SyncDel ''10.0.1.0/24'',
          SyncSet ''10.0.2.0/24'' [(''nexthop'', ''10.1.1.2''), (''ifname'', ''Ethernet2'')],
          SyncDel ''10.0.4.0/24'',
          SyncSet ''10.0.5.0/24'' [(''nexthop'', ''10.1.1.1''), (''ifname'', ''Ethernet1'')]]"
    by (simp add: reconcileCalls_def reconcile_def restoredHelper_def exampleSnapshot_def
        exampleRefresh_def getState_def setState_def syncTable_del_def syncTable_set_def
        kfvKey_def kfvOp_def kfvFieldsValues_def fvField_def fvValue_def DEL_COMMAND_def
        Let_def c1 c2 c3)
  have callsg: "reconcileCalls ?g
       = [SyncSet ''10.0.1.0/24'' [(''nexthop'', ''10.1.1.2''), (''ifname'', ''Ethernet2'')],
          SyncDel ''10.0.2.0/24'']"
    by (simp add: reconcileCalls_def reconcile_def restoredHelper_def abortSnapshot_def
        abortRefresh_def getState_def syncTable_del_def syncTable_set_def
        kfvKey_def kfvOp_def kfvFieldsValues_def fvField_def fvValue_def DEL_COMMAND_def
        Let_def c1)
  from reconcile_edit_script [OF sth okh rokh delh nph] ph dh1
  have inh: "SyncDel ''10.0.1.0/24'' \<in> set (reconcileCalls ?h)"
    by blast
  have "''10.0.2.0/24'' \<in> kfvKey ` set
      (specProcessed (map_of (m_refreshMap ?g)) (m_restorationVector ?g))"
    by (simp add: pg kfvKey_def)
  with reconcile_edit_script [OF stg okg rokg delg npg] pg' dg2
  have ing: "SyncDel ''10.0.2.0/24'' \<in> set (reconcileCalls ?g)"
    by blast
  have "''10.0.4.0/24'' \<notin> kfvKey ` set
      (specProcessed (map_of (m_refreshMap ?g)) (m_restorationVector ?g))"
    by (simp add: pg kfvKey_def)
  with reconcile_edit_script [OF stg okg rokg delg npg] pg'
  have outg: "SyncDel ''10.0.4.0/24'' \<notin> set (reconcileCalls ?g)"
    by blast
  from sth stg okh okg rokh rokg delh delg nph npg ph pg pg' dh1 dh3 dg2 dg4 callsh callsg
    inh ing outg
  show ?thesis
    by (simp add: restoredHelper_def)
qed

end
